theory Spec2Isabelle
  imports Main "HOL-Library.Word" "HOL-Library.List_Lexorder"
begin

unbundle bit_operations_syntax

chapter \<open>The filesystem helpers of fs_misc.c\<close>

text \<open>
  A shallow embedding of the parts of \<^verbatim>\<open>code/filesystem/fs_misc.c\<close> that the
  specification makes promises about: the generic hash table, the pk3 list built on it,
  the file-disabled check, the sort-key writers and the core pak verification.

  Conventions of the embedding.
  \<^item> An \<^verbatim>\<open>unsigned int\<close> whose bits matter (a hash, a sort value, a check mask) is a
    \<open>32 word\<close>; a byte is an \<open>8 word\<close>.  Counts and array indices that the code keeps
    non-negative (\<^verbatim>\<open>bucket_count\<close>, \<^verbatim>\<open>element_count\<close>, stream positions) are \<open>nat\<close>;
    where an unsigned addition can wrap, the \<open>mod 2 ^ 32\<close> is written out.  An \<^verbatim>\<open>int\<close>
    argument that a caller can make negative (the bucket count handed to
    \<^verbatim>\<open>fs_hashtable_initialize\<close>) is a \<open>32 word\<close> read as a signed number by \<open>sint\<close>.
  \<^item> A pointer is an address, a \<open>nat\<close>, and 0 is the null pointer.  The objects a
    pointer leads to live in an explicit memory, a function from addresses to records,
    which every function that follows or writes a pointer takes and returns.
  \<^item> \<^verbatim>\<open>FSC_ASSERT\<close> aborts the program: a function that asserts returns an \<open>option\<close>,
    and \<open>None\<close> is the failed assertion.
  \<^item> A loop whose termination depends on the shape of the memory is a
    \<^theory_text>\<open>partial_function (option)\<close>: \<open>None\<close> is the loop that never returns.
\<close>

section \<open>Definitions\<close>

subsection \<open>Hash table\<close>

type_synonym addr = nat

text \<open>
  \<^verbatim>\<open>fs_hashtable_entry_t\<close> is the intrusive link every stored object starts with.  Its
  only member is \<^verbatim>\<open>next\<close>; the field is called \<open>hte_next\<close> here because \<open>next\<close> is a
  keyword of the proof language.
\<close>

record fs_hashtable_entry =
  hte_next :: addr

text \<open>
  \<^verbatim>\<open>fs_hashtable_t\<close>: the bucket array holds the address of the first entry of each
  chain.  A zeroed (uninitialized) table has no buckets and \<open>bucket_count = 0\<close>.
\<close>

record fs_hashtable =
  buckets :: "addr list"
  bucket_count :: nat
  element_count :: nat

text \<open>
  \<^verbatim>\<open>fs_hashtable_iterator_t\<close>.  Its \<^verbatim>\<open>ht\<close> member points to the table being walked; the
  functions below take that table as an argument instead.
\<close>

record fs_hashtable_iterator =
  current_bucket :: nat
  bucket_limit :: nat
  current_entry :: addr

text \<open>
  \<^verbatim>\<open>fs_hashtable_initialize\<close>.  The parameter \<^verbatim>\<open>bucket_count\<close> is an \<^verbatim>\<open>int\<close>, given here
  by its 32 bits and read as a signed number by \<open>sint\<close>.  The function asserts
  \<^verbatim>\<open>bucket_count > 0\<close>, and the result is \<open>None\<close> when the assertion fails; \<^verbatim>\<open>Z_Malloc\<close>
  returns zeroed memory, so every bucket starts as the null pointer.
\<close>

definition fs_hashtable_initialize :: "32 word \<Rightarrow> fs_hashtable option" where
  "fs_hashtable_initialize n_buckets =
     (if 0 < sint n_buckets
      then Some \<lparr>buckets = replicate (nat (sint n_buckets)) 0,
                  bucket_count = nat (sint n_buckets), element_count = 0\<rparr>
      else None)"

text \<open>
  \<^verbatim>\<open>fs_hashtable_insert\<close>: asserts an initialized table and a non-null entry, then
  \<^verbatim>\<open>index = hash % bucket_count; entry->next = buckets[index]; buckets[index] = entry;
  ++element_count\<close>.  The write to \<^verbatim>\<open>entry->next\<close> is a write to the memory.
\<close>

definition fs_hashtable_insert ::
  "fs_hashtable \<Rightarrow> (addr \<Rightarrow> 'a fs_hashtable_entry_scheme) \<Rightarrow> addr \<Rightarrow> 32 word
     \<Rightarrow> (fs_hashtable \<times> (addr \<Rightarrow> 'a fs_hashtable_entry_scheme)) option" where
  "fs_hashtable_insert hashtable mem entry hash =
     (if 0 < bucket_count hashtable \<and> entry \<noteq> 0
      then
        let index = unat hash mod bucket_count hashtable;
            mem1 = mem(entry := (mem entry)\<lparr>hte_next := buckets hashtable ! index\<rparr>)
        in Some (hashtable\<lparr>buckets := (buckets hashtable)[index := entry],
                            element_count := element_count hashtable + 1\<rparr>, mem1)
      else None)"

text \<open>
  \<^verbatim>\<open>fs_hashtable_iterate\<close>: every bucket when the table has none or \<^verbatim>\<open>iterate_all\<close> is
  set, the one bucket \<^verbatim>\<open>hash % bucket_count\<close> otherwise.
\<close>

definition fs_hashtable_iterate :: "fs_hashtable \<Rightarrow> 32 word \<Rightarrow> bool \<Rightarrow> fs_hashtable_iterator" where
  "fs_hashtable_iterate hashtable hash iterate_all =
     (if bucket_count hashtable = 0 \<or> iterate_all
      then \<lparr>current_bucket = 0, bucket_limit = bucket_count hashtable, current_entry = 0\<rparr>
      else \<lparr>current_bucket = unat hash mod bucket_count hashtable,
            bucket_limit = unat hash mod bucket_count hashtable + 1,
            current_entry = 0\<rparr>)"

text \<open>
  The loop of \<^verbatim>\<open>fs_hashtable_next\<close>:
  \<^verbatim>\<open>while(!entry) { if(current_bucket >= bucket_limit) return 0;
  entry = buckets[current_bucket++]; }\<close>.
  It returns the entry it stops at (0 when the buckets are used up) and the new
  \<^verbatim>\<open>current_bucket\<close>.  It always terminates: each round moves \<^verbatim>\<open>current_bucket\<close> towards
  the limit.
\<close>

function fs_hashtable_next_loop :: "addr list \<Rightarrow> nat \<Rightarrow> nat \<Rightarrow> addr \<Rightarrow> addr \<times> nat" where
  "fs_hashtable_next_loop bs cur lim entry =
     (if entry = 0
      then (if lim \<le> cur then (0, cur)
            else fs_hashtable_next_loop bs (cur + 1) lim (bs ! cur))
      else (entry, cur))"
  by pat_completeness auto
termination
  by (relation "measure (\<lambda>(bs, cur, lim, entry). lim - cur)") auto

text \<open>
  \<^verbatim>\<open>fs_hashtable_next\<close>: the entry returned (0 at the end) and the advanced iterator,
  whose \<^verbatim>\<open>current_entry\<close> is the \<^verbatim>\<open>next\<close> link read from the returned entry.
\<close>

definition fs_hashtable_next ::
  "fs_hashtable \<Rightarrow> (addr \<Rightarrow> 'a fs_hashtable_entry_scheme) \<Rightarrow> fs_hashtable_iterator
     \<Rightarrow> addr \<times> fs_hashtable_iterator" where
  "fs_hashtable_next hashtable mem iterator =
     (case fs_hashtable_next_loop (buckets hashtable) (current_bucket iterator)
             (bucket_limit iterator) (current_entry iterator) of
        (entry, cur) \<Rightarrow>
          if entry = 0 then (0, iterator\<lparr>current_bucket := cur\<rparr>)
          else (entry, iterator\<lparr>current_bucket := cur,
                                 current_entry := hte_next (mem entry)\<rparr>))"

text \<open>
  The entries a caller receives from the loop
  \<^verbatim>\<open>while((entry = fs_hashtable_next(&it))) ...\<close>, in order, as
  \<^verbatim>\<open>fs_hashtable_free_entries\<close> runs it.  On a memory whose links form a cycle the loop
  does not end, and the value is \<open>None\<close>.
\<close>

partial_function (option) fs_hashtable_entries ::
  "fs_hashtable \<Rightarrow> (addr \<Rightarrow> 'a fs_hashtable_entry_scheme) \<Rightarrow> fs_hashtable_iterator
     \<Rightarrow> addr list option" where
  "fs_hashtable_entries hashtable mem iterator =
     (case fs_hashtable_next hashtable mem iterator of
        (entry, iterator1) \<Rightarrow>
          if entry = 0 then Some []
          else Option.bind (fs_hashtable_entries hashtable mem iterator1)
                 (\<lambda>rest. Some (entry # rest)))"

text \<open>A sequence of insertions, each given as the entry's address and its hash.\<close>

fun fs_hashtable_insert_all ::
  "fs_hashtable \<Rightarrow> (addr \<Rightarrow> 'a fs_hashtable_entry_scheme) \<Rightarrow> (addr \<times> 32 word) list
     \<Rightarrow> (fs_hashtable \<times> (addr \<Rightarrow> 'a fs_hashtable_entry_scheme)) option" where
  "fs_hashtable_insert_all hashtable mem [] = Some (hashtable, mem)"
| "fs_hashtable_insert_all hashtable mem ((entry, hash) # rest) =
     (case fs_hashtable_insert hashtable mem entry hash of
        None \<Rightarrow> None
      | Some (hashtable1, mem1) \<Rightarrow> fs_hashtable_insert_all hashtable1 mem1 rest)"

text \<open>
  The entries a caller receives from an iteration over an index of \<open>n_buckets\<close> buckets
  after the insertions \<open>ops\<close>: \<^verbatim>\<open>fs_hashtable_initialize\<close>, the calls of
  \<^verbatim>\<open>fs_hashtable_insert\<close>, \<^verbatim>\<open>fs_hashtable_iterate\<close>, and \<^verbatim>\<open>fs_hashtable_next\<close> until it
  returns null.
\<close>

definition fs_hashtable_yield ::
  "32 word \<Rightarrow> (addr \<Rightarrow> 'a fs_hashtable_entry_scheme) \<Rightarrow> (addr \<times> 32 word) list \<Rightarrow> 32 word \<Rightarrow> bool
     \<Rightarrow> addr list option" where
  "fs_hashtable_yield n_buckets mem ops hash iterate_all =
     (case fs_hashtable_initialize n_buckets of
        None \<Rightarrow> None
      | Some hashtable \<Rightarrow>
          (case fs_hashtable_insert_all hashtable mem ops of
             None \<Rightarrow> None
           | Some (hashtable1, mem1) \<Rightarrow>
               fs_hashtable_entries hashtable1 mem1 (fs_hashtable_iterate hashtable1 hash iterate_all)))"

text \<open>
  What the specification says a bucket holds after the insertions \<open>ops\<close> into an empty
  index of \<open>n\<close> buckets: the entries whose hash selects the bucket, the most recently
  inserted first (\<open>insert\<close> prepends).
\<close>

definition bucket_chain :: "nat \<Rightarrow> (addr \<times> 32 word) list \<Rightarrow> nat \<Rightarrow> addr list" where
  "bucket_chain n ops i = rev (map fst (filter (\<lambda>(entry, hash). unat hash mod n = i) ops))"

text \<open>
  The shape of the memory, for the proofs: \<open>is_chain mem p xs\<close> says that following the
  links from \<open>p\<close> visits exactly the addresses \<open>xs\<close> and then reaches the null pointer;
  \<open>ht_chains\<close> says that the buckets of a table are chains that share no entry, and that
  \<^verbatim>\<open>element_count\<close> counts their entries.
\<close>

primrec is_chain :: "(addr \<Rightarrow> 'a fs_hashtable_entry_scheme) \<Rightarrow> addr \<Rightarrow> addr list \<Rightarrow> bool" where
  "is_chain mem p [] = (p = 0)"
| "is_chain mem p (x # xs) = (p = x \<and> x \<noteq> 0 \<and> is_chain mem (hte_next (mem x)) xs)"

definition ht_chains ::
  "fs_hashtable \<Rightarrow> (addr \<Rightarrow> 'a fs_hashtable_entry_scheme) \<Rightarrow> addr list list \<Rightarrow> bool" where
  "ht_chains hashtable mem bss \<longleftrightarrow>
     length (buckets hashtable) = bucket_count hashtable \<and>
     list_all2 (is_chain mem) (buckets hashtable) bss \<and>
     distinct (concat bss) \<and>
     element_count hashtable = length (concat bss)"

subsection \<open>Pk3 list\<close>

text \<open>
  \<^verbatim>\<open>pk3_list_entry_t\<close>: the link \<^verbatim>\<open>hte\<close> first, then \<^verbatim>\<open>hash\<close> and \<^verbatim>\<open>position\<close>
  (called \<open>entry_hash\<close> and \<open>entry_position\<close> here, to keep \<open>hash\<close> and \<open>position\<close>
  free as names of arguments and of stream fields).  \<^verbatim>\<open>pk3_list_t\<close> holds the table.
\<close>

record pk3_list_entry = fs_hashtable_entry +
  entry_hash :: "32 word"
  entry_position :: nat

record pk3_list =
  ht :: fs_hashtable

text \<open>
  The memory the entries are allocated from.  \<^verbatim>\<open>S_Malloc\<close> belongs to the engine's zone
  allocator, which is not part of this file; all the pk3 list needs of it is a block
  that is not null and not in use.  The model hands out the addresses \<open>next_free\<close>,
  \<open>next_free + 1\<close>, ... in turn and leaves the contents of a new block as they were
  (\<^verbatim>\<open>S_Malloc\<close> does not clear it).
\<close>

record zone =
  cells :: "addr \<Rightarrow> pk3_list_entry"
  next_free :: addr

definition S_Malloc :: "zone \<Rightarrow> addr \<times> zone" where
  "S_Malloc z = (next_free z, z\<lparr>next_free := next_free z + 1\<rparr>)"

text \<open>
  \<^verbatim>\<open>pk3_list_initialize\<close>.  Its \<^verbatim>\<open>unsigned int bucket_count\<close> is passed on as the \<^verbatim>\<open>int\<close>
  argument of \<^verbatim>\<open>fs_hashtable_initialize\<close>; the conversion keeps the 32 bits, so a count of
  \<open>2 ^ 31\<close> or more arrives as a negative number and fails the assertion there, as the
  count 0 does.
\<close>

definition pk3_list_initialize :: "32 word \<Rightarrow> pk3_list option" where
  "pk3_list_initialize n_buckets =
     (case fs_hashtable_initialize n_buckets of
        None \<Rightarrow> None
      | Some hashtable \<Rightarrow> Some \<lparr>ht = hashtable\<rparr>)"

text \<open>
  The loop of \<^verbatim>\<open>pk3_list_lookup\<close>:
  \<^verbatim>\<open>while((entry = fs_hashtable_next(&it))) { if(entry->hash == hash) return
  entry->position; } return 0;\<close>
\<close>

partial_function (option) pk3_list_lookup_loop ::
  "fs_hashtable \<Rightarrow> (addr \<Rightarrow> pk3_list_entry) \<Rightarrow> fs_hashtable_iterator \<Rightarrow> 32 word \<Rightarrow> nat option" where
  "pk3_list_lookup_loop hashtable mem it hash =
     (case fs_hashtable_next hashtable mem it of
        (entry, it1) \<Rightarrow>
          if entry = 0 then Some 0
          else if entry_hash (mem entry) = hash then Some (entry_position (mem entry))
          else pk3_list_lookup_loop hashtable mem it1 hash)"

definition pk3_list_lookup :: "pk3_list \<Rightarrow> zone \<Rightarrow> 32 word \<Rightarrow> nat option" where
  "pk3_list_lookup pk3_list z hash =
     pk3_list_lookup_loop (ht pk3_list) (cells z)
       (fs_hashtable_iterate (ht pk3_list) hash False) hash"

text \<open>
  \<^verbatim>\<open>pk3_list_insert\<close>: nothing happens when the lookup succeeds; otherwise a new entry
  is allocated, linked into the table, and then given its hash and, as its position, the
  element count the table has after the insertion.
\<close>

definition pk3_list_insert :: "pk3_list \<Rightarrow> zone \<Rightarrow> 32 word \<Rightarrow> (pk3_list \<times> zone) option" where
  "pk3_list_insert pk3_list z hash =
     (case pk3_list_lookup pk3_list z hash of
        None \<Rightarrow> None
      | Some found \<Rightarrow>
          if found \<noteq> 0 then Some (pk3_list, z)
          else
            (case S_Malloc z of
               (new_entry, z1) \<Rightarrow>
                 (case fs_hashtable_insert (ht pk3_list) (cells z1) new_entry hash of
                    None \<Rightarrow> None
                  | Some (ht1, mem1) \<Rightarrow>
                      Some (pk3_list\<lparr>ht := ht1\<rparr>,
                            z1\<lparr>cells := mem1(new_entry := (mem1 new_entry)
                                   \<lparr>entry_hash := hash, entry_position := element_count ht1\<rparr>)\<rparr>))))"

text \<open>Inserting a sequence of hashes, one call of \<^verbatim>\<open>pk3_list_insert\<close> after the other.\<close>

fun pk3_list_insert_all :: "pk3_list \<Rightarrow> zone \<Rightarrow> 32 word list \<Rightarrow> (pk3_list \<times> zone) option" where
  "pk3_list_insert_all pk3_list z [] = Some (pk3_list, z)"
| "pk3_list_insert_all pk3_list z (h # hs) =
     (case pk3_list_insert pk3_list z h of
        None \<Rightarrow> None
      | Some (pk3_list1, z1) \<Rightarrow> pk3_list_insert_all pk3_list1 z1 hs)"

text \<open>
  For the proofs: the hashes of a sequence in the order of their first occurrence, and
  the invariant of a pk3 list that holds exactly the hashes \<open>hs\<close>, inserted in this
  order, in the chains \<open>bss\<close>.
\<close>

definition first_insertions :: "32 word list \<Rightarrow> 32 word list \<Rightarrow> 32 word list" where
  "first_insertions acc hs = foldl (\<lambda>acc h. if h \<in> set acc then acc else acc @ [h]) acc hs"

definition pk3_inv :: "pk3_list \<Rightarrow> zone \<Rightarrow> 32 word list \<Rightarrow> addr list list \<Rightarrow> bool" where
  "pk3_inv pl z hs bss \<longleftrightarrow>
     ht_chains (ht pl) (cells z) bss \<and> 0 < bucket_count (ht pl) \<and> 0 < next_free z \<and>
     (\<forall>a \<in> set (concat bss). a < next_free z) \<and>
     distinct hs \<and> length (concat bss) = length hs \<and>
     (\<forall>i < length bss. \<forall>a \<in> set (bss ! i).
         unat (entry_hash (cells z a)) mod bucket_count (ht pl) = i) \<and>
     (\<forall>a \<in> set (concat bss).
         0 < entry_position (cells z a) \<and> entry_position (cells z a) \<le> length hs \<and>
         hs ! (entry_position (cells z a) - 1) = entry_hash (cells z a)) \<and>
     (\<forall>h \<in> set hs. \<exists>a \<in> set (concat bss). entry_hash (cells z a) = h)"

text \<open>A memory to run examples in: one unused block pattern everywhere, address 1 free.\<close>

definition zone_example :: zone where
  "zone_example =
     \<lparr>cells = (\<lambda>_. \<lparr>hte_next = 77, entry_hash = 5, entry_position = 9\<rparr>), next_free = 1\<rparr>"

subsection \<open>Sort keys\<close>

text \<open>
  \<^verbatim>\<open>fsc_stream_t\<close>, the output buffer of the sort-key writers: \<^verbatim>\<open>data\<close> points to
  \<^verbatim>\<open>size\<close> bytes, of which the first \<^verbatim>\<open>position\<close> are written.  The buffer is the list
  of its bytes; the member \<^verbatim>\<open>size\<close> is called \<open>stream_size\<close> (\<open>size\<close> is taken in
  HOL).  The members are \<^verbatim>\<open>unsigned int\<close>; the one addition of the code that can wrap
  is written with its \<open>mod 2 ^ 32\<close>.
\<close>

record fsc_stream =
  data :: "8 word list"
  position :: nat
  stream_size :: nat
  overflowed :: bool

text \<open>
  The bytes of an \<^verbatim>\<open>unsigned int\<close> in the memory of the host, lowest address first:
  least significant byte first on a little-endian host, most significant first on a
  big-endian one.  The host's byte order is a parameter of the model.
\<close>

definition host_bytes :: "bool \<Rightarrow> 32 word \<Rightarrow> 8 word list" where
  "host_bytes little_endian v =
     (if little_endian
      then [ucast v, ucast (drop_bit 8 v), ucast (drop_bit 16 v), ucast (drop_bit 24 v)]
      else [ucast (drop_bit 24 v), ucast (drop_bit 16 v), ucast (drop_bit 8 v), ucast v])"

text \<open>Writing bytes to consecutive addresses of the buffer, starting at index \<open>p\<close>.\<close>

primrec store_bytes :: "8 word list \<Rightarrow> nat \<Rightarrow> 8 word list \<Rightarrow> 8 word list" where
  "store_bytes mem p [] = mem"
| "store_bytes mem p (b # bs) = store_bytes (mem[p := b]) (p + 1) bs"

text \<open>
  The two statements \<^verbatim>\<open>fs_write_sort_value\<close> runs on a little-endian host:
  \<^verbatim>\<open>value = ((value << 8) & 0xFF00FF00) | ((value >> 8) & 0xFF00FF);
  value = (value << 16) | (value >> 16);\<close>
\<close>

definition sort_value_swap :: "32 word \<Rightarrow> 32 word" where
  "sort_value_swap value =
     (let value1 = (push_bit 8 value AND 0xFF00FF00) OR (drop_bit 8 value AND 0xFF00FF)
      in push_bit 16 value1 OR drop_bit 16 value1)"

text \<open>
  \<^verbatim>\<open>fs_write_sort_value\<close>.  The test \<^verbatim>\<open>*(char *)&test\<close> reads the first byte of the
  integer 1 as the host stores it.  The value is stored, as the host stores an
  \<^verbatim>\<open>unsigned int\<close>, only under the guard \<^verbatim>\<open>output->position + 3 < output->size\<close>.
\<close>

definition fs_write_sort_value :: "bool \<Rightarrow> 32 word \<Rightarrow> fsc_stream \<Rightarrow> fsc_stream" where
  "fs_write_sort_value little_endian value output =
     (let value1 = (if hd (host_bytes little_endian 1) \<noteq> 0 then sort_value_swap value else value)
      in if (position output + 3) mod 2 ^ 32 < stream_size output
         then output\<lparr>data := store_bytes (data output) (position output) (host_bytes little_endian value1),
                      position := (position output + 4) mod 2 ^ 32\<rparr>
         else output)"

text \<open>
  \<^verbatim>\<open>get_string_sort_table\<close>.  The flag \<^verbatim>\<open>initialized\<close> is a plain local variable, so
  every call runs the loops again, on the static table as the previous call left it.
  \<open>sort_table_set\<close> is the loop body \<^verbatim>\<open>table[i] = value--\<close>, \<open>sort_table_set_unused\<close>
  the body \<^verbatim>\<open>if(!table[i]) table[i] = value--\<close>, and \<open>down_from hi lo\<close> the indices of
  \<^verbatim>\<open>for(i = hi; i >= lo; --i)\<close>.  \<open>sort_table_ranges\<close> runs the three loops over the
  lowercase letters, the uppercase letters and the digits, \<open>sort_table_fill\<close> the whole
  body.  The table the first call returns is \<open>string_sort_table\<close>: the static array starts
  zeroed.  (Theorem \<open>sort_table_fill_again\<close> below shows that every later call returns
  the same table.)
\<close>

definition sort_table_set :: "8 word list \<times> 8 word \<Rightarrow> nat \<Rightarrow> 8 word list \<times> 8 word" where
  "sort_table_set tv i = (case tv of (table, value) \<Rightarrow> (table[i := value], value - 1))"

definition sort_table_set_unused :: "8 word list \<times> 8 word \<Rightarrow> nat \<Rightarrow> 8 word list \<times> 8 word" where
  "sort_table_set_unused tv i =
     (case tv of (table, value) \<Rightarrow>
        if table ! i = 0 then (table[i := value], value - 1) else (table, value))"

definition down_from :: "nat \<Rightarrow> nat \<Rightarrow> nat list" where
  "down_from hi lo = rev [lo..<Suc hi]"

definition sort_table_ranges :: "8 word list \<Rightarrow> 8 word list \<times> 8 word" where
  "sort_table_ranges table =
     (let (table1, value1) =
            foldl sort_table_set (table, 250) (down_from (of_char CHR ''z'') (of_char CHR ''a''));
          (table2, value2) =
            foldl sort_table_set (table1, 250) (down_from (of_char CHR ''Z'') (of_char CHR ''A''))
      in foldl sort_table_set (table2, value2) (down_from (of_char CHR ''9'') (of_char CHR ''0'')))"

definition sort_table_fill :: "8 word list \<Rightarrow> 8 word list" where
  "sort_table_fill table = fst (foldl sort_table_set_unused (sort_table_ranges table) (down_from 255 0))"

definition string_sort_table :: "8 word list" where
  "string_sort_table = sort_table_fill (replicate 256 0)"

text \<open>
  \<^verbatim>\<open>fs_write_sort_string\<close>.  A C string is the list of its characters; it ends where the
  list ends or at the first NUL character.  The loop
  \<^verbatim>\<open>while(*string && output->position < output->size)\<close> writes the table's value of each
  character; the terminator is written only if the stream still has room.  (A position
  below the size cannot wrap when it is incremented.)
\<close>

fun fs_write_sort_string_loop :: "string \<Rightarrow> fsc_stream \<Rightarrow> fsc_stream" where
  "fs_write_sort_string_loop [] output = output"
| "fs_write_sort_string_loop (c # cs) output =
     (if c \<noteq> CHR 0x00 \<and> position output < stream_size output
      then fs_write_sort_string_loop cs
             (output\<lparr>data := (data output)[position output := string_sort_table ! of_char c],
                      position := position output + 1\<rparr>)
      else output)"

definition fs_write_sort_string :: "string \<Rightarrow> fsc_stream \<Rightarrow> bool \<Rightarrow> fsc_stream" where
  "fs_write_sort_string string output prioritize_shorter =
     (let output1 = fs_write_sort_string_loop string output
      in if position output1 < stream_size output1
         then output1\<lparr>data := (data output1)[position output1 := (if prioritize_shorter then 255 else 0)],
                       position := position output1 + 1\<rparr>
         else output1)"

text \<open>
  What the statements about sort keys speak of.
  \<^item> \<open>stream_written before after\<close> is the field a call appended: the bytes of the
    stream \<open>after\<close> from the position of the stream \<open>before\<close> on.
  \<^item> Keys are compared byte by byte as unsigned values, the lexicographic order \<open><\<close> of
    byte lists.  The larger key is the one that comes first: the table's comment says
    "higher value = higher precedence", \<^verbatim>\<open>prioritize_shorter\<close>, which is documented to
    "prioritize shorter strings (i.e. "abc" over "abcd")", does so by ending the key
    with the largest byte, and \<^verbatim>\<open>fs_compare_pk3_source\<close> compares the second key with the
    first.  \<open>sorts_before key1 key2\<close> says that \<open>key1\<close> is the larger one.
  \<^item> \<open>collated\<close> maps a string through the table, \<open>big_endian_bytes\<close> are the four bytes
    of a value, most significant first, and \<open>empty_stream n\<close> is a fresh stream over a
    zeroed buffer of \<open>n\<close> bytes.
\<close>

definition stream_written :: "fsc_stream \<Rightarrow> fsc_stream \<Rightarrow> 8 word list" where
  "stream_written before after =
     take (position after - position before) (drop (position before) (data after))"

definition sorts_before :: "8 word list \<Rightarrow> 8 word list \<Rightarrow> bool" where
  "sorts_before key1 key2 \<longleftrightarrow> key2 < key1"

definition collated :: "string \<Rightarrow> 8 word list" where
  "collated string = map (\<lambda>c. string_sort_table ! of_char c) string"

definition big_endian_bytes :: "32 word \<Rightarrow> 8 word list" where
  "big_endian_bytes v = [ucast (drop_bit 24 v), ucast (drop_bit 16 v), ucast (drop_bit 8 v), ucast v]"

definition empty_stream :: "nat \<Rightarrow> fsc_stream" where
  "empty_stream n = \<lparr>data = replicate n 0, position = 0, stream_size = n, overflowed = False\<rparr>"

text \<open>
  For the proofs: the table after the three range loops on a zeroed array, the table
  after the whole body, and the last loop as a recursion over the table read from its
  end.
\<close>

definition sort_table_letters_digits :: "8 word list" where
  "sort_table_letters_digits =
     [0, 0, 0, 0, 0, 0, 0, 0, 0, 0, 0, 0, 0, 0, 0, 0, 0, 0, 0, 0, 0, 0, 0, 0, 0, 0, 0, 0, 0,
      0, 0, 0, 0, 0, 0, 0, 0, 0, 0, 0, 0, 0, 0, 0, 0, 0, 0, 0, 215, 216, 217, 218, 219, 220,
      221, 222, 223, 224, 0, 0, 0, 0, 0, 0, 0, 225, 226, 227, 228, 229, 230, 231, 232, 233,
      234, 235, 236, 237, 238, 239, 240, 241, 242, 243, 244, 245, 246, 247, 248, 249, 250, 0,
      0, 0, 0, 0, 0, 225, 226, 227, 228, 229, 230, 231, 232, 233, 234, 235, 236, 237, 238,
      239, 240, 241, 242, 243, 244, 245, 246, 247, 248, 249, 250, 0, 0, 0, 0, 0, 0, 0, 0, 0,
      0, 0, 0, 0, 0, 0, 0, 0, 0, 0, 0, 0, 0, 0, 0, 0, 0, 0, 0, 0, 0, 0, 0, 0, 0, 0, 0, 0, 0,
      0, 0, 0, 0, 0, 0, 0, 0, 0, 0, 0, 0, 0, 0, 0, 0, 0, 0, 0, 0, 0, 0, 0, 0, 0, 0, 0, 0, 0,
      0, 0, 0, 0, 0, 0, 0, 0, 0, 0, 0, 0, 0, 0, 0, 0, 0, 0, 0, 0, 0, 0, 0, 0, 0, 0, 0, 0, 0,
      0, 0, 0, 0, 0, 0, 0, 0, 0, 0, 0, 0, 0, 0, 0, 0, 0, 0, 0, 0, 0, 0, 0, 0, 0, 0, 0, 0, 0,
      0, 0, 0, 0, 0, 0, 0, 0]"

definition sort_table_final :: "8 word list" where
  "sort_table_final =
     [21, 22, 23, 24, 25, 26, 27, 28, 29, 30, 31, 32, 33, 34, 35, 36, 37, 38, 39, 40, 41, 42,
      43, 44, 45, 46, 47, 48, 49, 50, 51, 52, 53, 54, 55, 56, 57, 58, 59, 60, 61, 62, 63, 64,
      65, 66, 67, 68, 215, 216, 217, 218, 219, 220, 221, 222, 223, 224, 69, 70, 71, 72, 73,
      74, 75, 225, 226, 227, 228, 229, 230, 231, 232, 233, 234, 235, 236, 237, 238, 239, 240,
      241, 242, 243, 244, 245, 246, 247, 248, 249, 250, 76, 77, 78, 79, 80, 81, 225, 226, 227,
      228, 229, 230, 231, 232, 233, 234, 235, 236, 237, 238, 239, 240, 241, 242, 243, 244,
      245, 246, 247, 248, 249, 250, 82, 83, 84, 85, 86, 87, 88, 89, 90, 91, 92, 93, 94, 95,
      96, 97, 98, 99, 100, 101, 102, 103, 104, 105, 106, 107, 108, 109, 110, 111, 112, 113,
      114, 115, 116, 117, 118, 119, 120, 121, 122, 123, 124, 125, 126, 127, 128, 129, 130,
      131, 132, 133, 134, 135, 136, 137, 138, 139, 140, 141, 142, 143, 144, 145, 146, 147,
      148, 149, 150, 151, 152, 153, 154, 155, 156, 157, 158, 159, 160, 161, 162, 163, 164,
      165, 166, 167, 168, 169, 170, 171, 172, 173, 174, 175, 176, 177, 178, 179, 180, 181,
      182, 183, 184, 185, 186, 187, 188, 189, 190, 191, 192, 193, 194, 195, 196, 197, 198,
      199, 200, 201, 202, 203, 204, 205, 206, 207, 208, 209, 210, 211, 212, 213, 214]"

fun fill_unused :: "8 word list \<Rightarrow> 8 word \<Rightarrow> 8 word list" where
  "fill_unused [] v = []"
| "fill_unused (x # xs) v = (if x = 0 then v # fill_unused xs (v - 1) else x # fill_unused xs v)"

subsection \<open>Files and settings\<close>

text \<open>
  The file index (\<^verbatim>\<open>fscore\<close>) is not part of this file; what follows is the part of its
  data the functions here read.

  A file of the index is a direct file on disk (\<^verbatim>\<open>fsc_file_direct_t\<close>, sourcetype
  \<^verbatim>\<open>FSC_SOURCETYPE_DIRECT\<close>; a pk3 archive on disk is one, and carries the hash of its
  contents), a file inside a pk3 (\<^verbatim>\<open>fsc_file_frompk3_t\<close>, sourcetype
  \<^verbatim>\<open>FSC_SOURCETYPE_PK3\<close>, with its \<^verbatim>\<open>source_pk3\<close>), or a file of some other sourcetype.
  \<open>d_addr\<close> is the address of a direct file: two pointers to direct files are equal when
  the addresses are.
\<close>

record fsc_file_direct =
  d_addr :: addr
  d_flags :: "32 word"
  d_qp_name :: string
  d_qp_ext :: string
  d_mod_dir :: string
  pk3_hash :: "32 word"

record fsc_file_frompk3 =
  p_flags :: "32 word"
  p_qp_name :: string
  p_qp_ext :: string
  source_pk3 :: fsc_file_direct
  header_position :: "32 word"

record fsc_file_other =
  o_flags :: "32 word"
  o_qp_name :: string
  o_qp_ext :: string
  o_mod_dir :: string

datatype fsc_file =
    File_direct fsc_file_direct
  | File_frompk3 fsc_file_frompk3
  | File_other fsc_file_other

datatype fsc_sourcetype = FSC_SOURCETYPE_DIRECT | FSC_SOURCETYPE_PK3 | FSC_SOURCETYPE_OTHER

fun sourcetype :: "fsc_file \<Rightarrow> fsc_sourcetype" where
  "sourcetype (File_direct d) = FSC_SOURCETYPE_DIRECT"
| "sourcetype (File_frompk3 p) = FSC_SOURCETYPE_PK3"
| "sourcetype (File_other o') = FSC_SOURCETYPE_OTHER"

text \<open>
  Modelled from the spec: \<^verbatim>\<open>fsc_get_base_file\<close> and \<^verbatim>\<open>fsc_get_mod_dir\<close> belong to the
  file index and are not among the sources.  A file carries "a provenance tag, an owning
  archive reference (present only when FromArchive), a mod-directory string": the base
  file of a direct file is the file itself, the base file of a file from a pk3 is that
  pk3, another file has none; a file from a pk3 is in the mod directory of its pk3.
\<close>

fun fsc_get_base_file :: "fsc_file \<Rightarrow> fsc_file_direct option" where
  "fsc_get_base_file (File_direct d) = Some d"
| "fsc_get_base_file (File_frompk3 p) = Some (source_pk3 p)"
| "fsc_get_base_file (File_other o') = None"

fun fsc_get_mod_dir :: "fsc_file \<Rightarrow> string" where
  "fsc_get_mod_dir (File_direct d) = d_mod_dir d"
| "fsc_get_mod_dir (File_frompk3 p) = d_mod_dir (source_pk3 p)"
| "fsc_get_mod_dir (File_other o') = o_mod_dir o'"

fun qp_ext :: "fsc_file \<Rightarrow> string" where
  "qp_ext (File_direct d) = d_qp_ext d"
| "qp_ext (File_frompk3 p) = p_qp_ext p"
| "qp_ext (File_other o') = o_qp_ext o'"

text \<open>
  Modelled from the spec: the mod types are declared in a header that is not among the
  sources.  They are the "ordered enumeration {Inactive=0, Base, OverrideDirectory,
  CurrentMod}"; \<open>modtype_rank\<close> is the integer value the code compares.
\<close>

datatype fs_modtype =
  MODTYPE_INACTIVE | MODTYPE_BASE | MODTYPE_OVERRIDE_DIRECTORY | MODTYPE_CURRENT_MOD

fun modtype_rank :: "fs_modtype \<Rightarrow> nat" where
  "modtype_rank MODTYPE_INACTIVE = 0"
| "modtype_rank MODTYPE_BASE = 1"
| "modtype_rank MODTYPE_OVERRIDE_DIRECTORY = 2"
| "modtype_rank MODTYPE_CURRENT_MOD = 3"

text \<open>
  The constants of the build that the code names but does not define: the identifiers of
  the checks of \<^verbatim>\<open>fs_file_disabled\<close>, the names of the base game and of the team arena
  directory, the size of a mod directory buffer, whether \<^verbatim>\<open>FS_SERVERCFG_ENABLED\<close> and
  \<^verbatim>\<open>DEDICATED\<close> are defined, and the lists \<^verbatim>\<open>FS_CORE_PAKS\<close> and
  \<^verbatim>\<open>FS_CORE_PAKS_TEAMARENA\<close> where they are defined (\<open>None\<close> where not).  They are
  parameters of the model.
\<close>

record fs_constants =
  FD_CHECK_PURE_LIST :: "32 word"
  FD_CHECK_READ_INACTIVE_MODS :: "32 word"
  FD_CHECK_READ_INACTIVE_MODS_IGNORE_SERVERCFG :: "32 word"
  FD_CHECK_LIST_INACTIVE_MODS :: "32 word"
  FD_CHECK_LIST_SERVERCFG_LIMIT :: "32 word"
  BASEGAME :: string
  BASETA :: string
  FSC_MAX_MODDIR :: nat
  FS_SERVERCFG_ENABLED :: bool
  DEDICATED :: bool
  FS_CORE_PAKS :: "32 word list option"
  FS_CORE_PAKS_TEAMARENA :: "32 word list option"

text \<open>
  The state the functions read: the pure list of the connected server and the memory
  its entries live in, the value of \<^verbatim>\<open>fs_connected_server_pure_state()\<close>, the integer
  values of the cvars, the strings \<^verbatim>\<open>current_mod_dir\<close>, \<^verbatim>\<open>com_basegame->string\<close> and
  \<^verbatim>\<open>FS_GetCurrentGameDir()\<close>, the tokens \<^verbatim>\<open>COM_ParseExt\<close> reads from the cvar
  \<^verbatim>\<open>fs_servercfg\<close> (up to the first empty one), the path generator that
  \<^verbatim>\<open>fs_sanitize_mod_dir\<close> calls (\<open>None\<close> when \<^verbatim>\<open>fs_generate_path\<close> returns 0), and the two
  iterators of the file index: the files \<^verbatim>\<open>fsc_file_iterator_open(&fs, "", name)\<close>
  yields for a name and the pk3s \<^verbatim>\<open>fsc_pk3_iterator_open(&fs, hash)\<close> yields for a hash,
  each in the order of the iteration.
\<close>

record fs_state =
  connected_server_pure_list :: pk3_list
  zone_memory :: zone
  connected_server_pure_state :: int
  fs_read_inactive_mods :: int
  fs_list_inactive_mods :: int
  fs_servercfg_listlimit :: int
  current_mod_dir :: string
  com_basegame :: string
  current_game_dir :: string
  fs_servercfg_tokens :: "string list"
  fs_generate_path :: "string \<Rightarrow> string option"
  files_named :: "string \<Rightarrow> fsc_file list"
  pk3s_with_hash :: "32 word \<Rightarrow> fsc_file_direct list"

subsection \<open>Pk3 precedence and mod types\<close>

text \<open>
  Modelled from the spec: \<^verbatim>\<open>Q_stricmp\<close> is a function of the engine's shared library and
  not among the sources; the comparison "is ASCII case-insensitive".  The functions here
  only test its result against zero, so the model returns 0 for strings that are equal
  up to the case of ASCII letters and 1 otherwise.  \<open>ascii_upper\<close> is the code of a
  character with a lowercase letter replaced by its uppercase one.
\<close>

definition ascii_upper :: "char \<Rightarrow> nat" where
  "ascii_upper c =
     (if of_char CHR ''a'' \<le> (of_char c :: nat) \<and> (of_char c :: nat) \<le> of_char CHR ''z''
      then of_char c - 32 else of_char c)"

definition Q_stricmp :: "string \<Rightarrow> string \<Rightarrow> int" where
  "Q_stricmp s1 s2 = (if map ascii_upper s1 = map ascii_upper s2 then 0 else 1)"

text \<open>
  The macro \<^verbatim>\<open>PROCESS_PAKS\<close>: the position, counted from 1, of the first entry of the
  list that equals the hash; 0 stands for the loop that ends without returning.
\<close>

fun PROCESS_PAKS :: "32 word list \<Rightarrow> 32 word \<Rightarrow> nat" where
  "PROCESS_PAKS [] hash = 0"
| "PROCESS_PAKS (h # hashes) hash =
     (if hash = h then 1
      else (case PROCESS_PAKS hashes hash of 0 \<Rightarrow> 0 | Suc i \<Rightarrow> Suc (Suc i)))"

definition core_pk3_position :: "fs_constants \<Rightarrow> fs_state \<Rightarrow> 32 word \<Rightarrow> nat" where
  "core_pk3_position c st hash =
     (let core = (case FS_CORE_PAKS c of None \<Rightarrow> 0 | Some paks \<Rightarrow> PROCESS_PAKS paks hash)
      in case FS_CORE_PAKS_TEAMARENA c of
           None \<Rightarrow> core
         | Some paks \<Rightarrow>
             if Q_stricmp (current_game_dir st) (BASETA c) = 0 then PROCESS_PAKS paks hash
             else core)"

text \<open>
  \<^verbatim>\<open>fs_sanitize_mod_dir\<close>: \<^verbatim>\<open>Q_strncpyz\<close> copies at most \<^verbatim>\<open>FSC_MAX_MODDIR - 1\<close>
  characters into the buffer; the target is the generated path, or the empty string when
  \<^verbatim>\<open>fs_generate_path\<close> fails.
\<close>

definition fs_sanitize_mod_dir :: "fs_constants \<Rightarrow> fs_state \<Rightarrow> string \<Rightarrow> string" where
  "fs_sanitize_mod_dir c st source =
     (case fs_generate_path st (take (FSC_MAX_MODDIR c - 1) source) of
        None \<Rightarrow> []
      | Some target \<Rightarrow> target)"

text \<open>\<^verbatim>\<open>fs_get_mod_type\<close>; the argument is \<open>None\<close> for a null pointer.\<close>

definition fs_get_mod_type :: "fs_constants \<Rightarrow> fs_state \<Rightarrow> string option \<Rightarrow> fs_modtype" where
  "fs_get_mod_type c st mod_dir =
     (case mod_dir of
        None \<Rightarrow> MODTYPE_INACTIVE
      | Some dir \<Rightarrow>
          let sanitized_mod_dir = fs_sanitize_mod_dir c st dir
          in if sanitized_mod_dir \<noteq> [] \<and> Q_stricmp sanitized_mod_dir (current_mod_dir st) = 0
             then MODTYPE_CURRENT_MOD
             else if Q_stricmp sanitized_mod_dir ''basemod'' = 0 then MODTYPE_OVERRIDE_DIRECTORY
             else if Q_stricmp sanitized_mod_dir (com_basegame st) = 0 then MODTYPE_BASE
             else MODTYPE_INACTIVE)"

text \<open>
  The servercfg directory list as \<^verbatim>\<open>fs_servercfg_update_state\<close> leaves it: the first
  \<^verbatim>\<open>MAX_SERVERCFG_FOLDERS\<close> tokens of the cvar, each cut to the size of its buffer.  (The
  function rebuilds the list whenever the cvar's modification count has changed, so that
  after each call the list is the one of the cvar's current value.)
\<close>

definition MAX_SERVERCFG_FOLDERS :: nat where
  "MAX_SERVERCFG_FOLDERS = 32"

definition servercfg_folders :: "fs_constants \<Rightarrow> fs_state \<Rightarrow> string list" where
  "servercfg_folders c st =
     map (take (FSC_MAX_MODDIR c - 1)) (take MAX_SERVERCFG_FOLDERS (fs_servercfg_tokens st))"

text \<open>
  The loop of \<^verbatim>\<open>fs_servercfg_priority\<close>: at index \<open>i\<close> of \<open>servercfg_folder_count\<close>
  folders, a match returns \<open>servercfg_folder_count - i\<close>, the number of folders from the
  matching one to the end.
\<close>

fun fs_servercfg_priority_loop :: "string \<Rightarrow> string list \<Rightarrow> nat" where
  "fs_servercfg_priority_loop mod_dir [] = 0"
| "fs_servercfg_priority_loop mod_dir (folder # folders) =
     (if Q_stricmp mod_dir folder = 0 then length (folder # folders)
      else fs_servercfg_priority_loop mod_dir folders)"

definition fs_servercfg_priority :: "fs_constants \<Rightarrow> fs_state \<Rightarrow> string \<Rightarrow> nat" where
  "fs_servercfg_priority c st mod_dir = fs_servercfg_priority_loop mod_dir (servercfg_folders c st)"

subsection \<open>File disabled check\<close>

text \<open>
  \<^verbatim>\<open>get_pk3_list_position\<close>: 0 for a file that is not from a pk3.  The lookup walks the
  pure list's chains, so the result is an \<open>option\<close>; \<open>None\<close> also stands for the null
  pointer the code would follow if a file from a pk3 had no base file.
\<close>

definition get_pk3_list_position :: "fs_state \<Rightarrow> fsc_file \<Rightarrow> nat option" where
  "get_pk3_list_position st file =
     (if sourcetype file \<noteq> FSC_SOURCETYPE_PK3 then Some 0
      else (case fsc_get_base_file file of
              None \<Rightarrow> None
            | Some base_file \<Rightarrow>
                pk3_list_lookup (connected_server_pure_list st) (zone_memory st) (pk3_hash base_file)))"

text \<open>
  \<^verbatim>\<open>inactive_mod_file_disabled\<close>, statement by statement; \<open>servercfg_allows\<close> is its
  last test, which is compiled only with \<^verbatim>\<open>FS_SERVERCFG_ENABLED\<close>.
\<close>

definition servercfg_allows :: "fs_constants \<Rightarrow> fs_state \<Rightarrow> fsc_file \<Rightarrow> bool \<Rightarrow> bool" where
  "servercfg_allows c st file ignore_servercfg \<longleftrightarrow>
     FS_SERVERCFG_ENABLED c \<and> \<not> ignore_servercfg \<and>
     fs_servercfg_priority c st (fsc_get_mod_dir file) \<noteq> 0"

definition inactive_mod_file_disabled ::
  "fs_constants \<Rightarrow> fs_state \<Rightarrow> fsc_file \<Rightarrow> int \<Rightarrow> bool \<Rightarrow> bool option" where
  "inactive_mod_file_disabled c st file level ignore_servercfg =
     (if 2 \<le> level then Some False
      else if modtype_rank MODTYPE_INACTIVE
                < modtype_rank (fs_get_mod_type c st (Some (fsc_get_mod_dir file)))
      then Some False
      else if level = 1
      then (case fsc_get_base_file file of
              None \<Rightarrow> Some (\<not> servercfg_allows c st file ignore_servercfg)
            | Some base_file \<Rightarrow>
                (case pk3_list_lookup (connected_server_pure_list st) (zone_memory st)
                        (pk3_hash base_file) of
                   None \<Rightarrow> None
                 | Some found \<Rightarrow>
                     if found \<noteq> 0 then Some False
                     else if core_pk3_position c st (pk3_hash base_file) \<noteq> 0 then Some False
                     else Some (\<not> servercfg_allows c st file ignore_servercfg)))
      else Some (\<not> servercfg_allows c st file ignore_servercfg))"

text \<open>
  The level of the list check:
  \<^verbatim>\<open>fs_read_inactive_mods->integer < fs_list_inactive_mods->integer ?
  fs_read_inactive_mods->integer : fs_list_inactive_mods->integer\<close>.
\<close>

definition list_inactive_mods_level :: "fs_state \<Rightarrow> int" where
  "list_inactive_mods_level st =
     (if fs_read_inactive_mods st < fs_list_inactive_mods st
      then fs_read_inactive_mods st else fs_list_inactive_mods st)"

text \<open>
  The condition of the last check of \<^verbatim>\<open>fs_file_disabled\<close>, apart from the mask: the
  limit is set, the file is in no servercfg directory, and, at limit 1, it is not from a
  core pak.  Without \<^verbatim>\<open>FS_SERVERCFG_ENABLED\<close> the check is not compiled.
\<close>

definition servercfg_list_limited :: "fs_constants \<Rightarrow> fs_state \<Rightarrow> fsc_file \<Rightarrow> bool" where
  "servercfg_list_limited c st file \<longleftrightarrow>
     FS_SERVERCFG_ENABLED c \<and> fs_servercfg_listlimit st \<noteq> 0 \<and>
     fs_servercfg_priority c st (fsc_get_mod_dir file) = 0 \<and>
     (if fs_servercfg_listlimit st = 1
      then (case fsc_get_base_file file of
              None \<Rightarrow> True
            | Some base_file \<Rightarrow> core_pk3_position c st (pk3_hash base_file) = 0)
      else True)"

text \<open>
  \<^verbatim>\<open>fs_file_disabled\<close>: the checks in the order of the code, each returning its
  identifier when it is requested in \<open>checks\<close> and triggers; 0 at the end.
\<close>

definition fs_file_disabled :: "fs_constants \<Rightarrow> fs_state \<Rightarrow> fsc_file \<Rightarrow> 32 word \<Rightarrow> 32 word option" where
  "fs_file_disabled c st file checks =
     (case (if checks AND FD_CHECK_PURE_LIST c \<noteq> 0 \<and> connected_server_pure_state st = 1
            then (case get_pk3_list_position st file of
                    None \<Rightarrow> None
                  | Some p \<Rightarrow> Some (p = 0))
            else Some False) of
        None \<Rightarrow> None
      | Some True \<Rightarrow> Some (FD_CHECK_PURE_LIST c)
      | Some False \<Rightarrow>
     (case (if checks AND FD_CHECK_READ_INACTIVE_MODS c \<noteq> 0
            then inactive_mod_file_disabled c st file (fs_read_inactive_mods st) False
            else Some False) of
        None \<Rightarrow> None
      | Some True \<Rightarrow> Some (FD_CHECK_READ_INACTIVE_MODS c)
      | Some False \<Rightarrow>
     (case (if checks AND FD_CHECK_READ_INACTIVE_MODS_IGNORE_SERVERCFG c \<noteq> 0
            then inactive_mod_file_disabled c st file (fs_read_inactive_mods st) True
            else Some False) of
        None \<Rightarrow> None
      | Some True \<Rightarrow> Some (FD_CHECK_READ_INACTIVE_MODS_IGNORE_SERVERCFG c)
      | Some False \<Rightarrow>
     (case (if checks AND FD_CHECK_LIST_INACTIVE_MODS c \<noteq> 0
            then inactive_mod_file_disabled c st file (list_inactive_mods_level st) False
            else Some False) of
        None \<Rightarrow> None
      | Some True \<Rightarrow> Some (FD_CHECK_LIST_INACTIVE_MODS c)
      | Some False \<Rightarrow>
          if checks AND FD_CHECK_LIST_SERVERCFG_LIMIT c \<noteq> 0 \<and> servercfg_list_limited c st file
          then Some (FD_CHECK_LIST_SERVERCFG_LIMIT c)
          else Some 0))))"

text \<open>
  What the statements about the check speak of.  \<open>pure_list_blocks\<close> is the condition of
  the pure list check apart from the mask; \<open>fd_checks\<close> lists the five checks in the
  order of the code, each with its identifier and with whether it triggers;
  \<open>first_triggered\<close> is the identifier of the first check of such a list that is
  requested in the mask and triggers, and 0 if there is none.  \<open>pure_list_lookups_return\<close>
  says that every lookup in the pure list of the connected server returns (as it does
  in a list built by \<^verbatim>\<open>pk3_list_initialize\<close> and \<^verbatim>\<open>pk3_list_insert\<close>);
  \<open>fd_flags_independent\<close> that the five identifiers are bit flags independent of each
  other, as the specification says: none is zero and no two have a bit in common.
\<close>

definition pure_list_blocks :: "fs_state \<Rightarrow> fsc_file \<Rightarrow> bool option" where
  "pure_list_blocks st file =
     (if connected_server_pure_state st = 1
      then (case get_pk3_list_position st file of None \<Rightarrow> None | Some p \<Rightarrow> Some (p = 0))
      else Some False)"

definition fd_checks :: "fs_constants \<Rightarrow> fs_state \<Rightarrow> fsc_file \<Rightarrow> (32 word \<times> bool option) list" where
  "fd_checks c st file =
     [(FD_CHECK_PURE_LIST c, pure_list_blocks st file),
      (FD_CHECK_READ_INACTIVE_MODS c,
         inactive_mod_file_disabled c st file (fs_read_inactive_mods st) False),
      (FD_CHECK_READ_INACTIVE_MODS_IGNORE_SERVERCFG c,
         inactive_mod_file_disabled c st file (fs_read_inactive_mods st) True),
      (FD_CHECK_LIST_INACTIVE_MODS c,
         inactive_mod_file_disabled c st file (list_inactive_mods_level st) False),
      (FD_CHECK_LIST_SERVERCFG_LIMIT c, Some (servercfg_list_limited c st file))]"

fun first_triggered :: "32 word \<Rightarrow> (32 word \<times> bool option) list \<Rightarrow> 32 word" where
  "first_triggered checks [] = 0"
| "first_triggered checks ((ident, triggers) # rest) =
     (if checks AND ident \<noteq> 0 \<and> triggers = Some True then ident
      else first_triggered checks rest)"

definition pure_list_lookups_return :: "fs_state \<Rightarrow> bool" where
  "pure_list_lookups_return st \<longleftrightarrow>
     (\<forall>hash. pk3_list_lookup (connected_server_pure_list st) (zone_memory st) hash \<noteq> None)"

fun no_common_bit :: "32 word list \<Rightarrow> bool" where
  "no_common_bit [] \<longleftrightarrow> True"
| "no_common_bit (x # xs) \<longleftrightarrow> list_all (\<lambda>y. x AND y = 0) xs \<and> no_common_bit xs"

definition fd_flags_independent :: "fs_constants \<Rightarrow> bool" where
  "fd_flags_independent c \<longleftrightarrow>
     (let flags = [FD_CHECK_PURE_LIST c, FD_CHECK_READ_INACTIVE_MODS c,
                   FD_CHECK_READ_INACTIVE_MODS_IGNORE_SERVERCFG c,
                   FD_CHECK_LIST_INACTIVE_MODS c, FD_CHECK_LIST_SERVERCFG_LIMIT c]
      in list_all (\<lambda>x. x \<noteq> 0) flags \<and> no_common_bit flags)"

subsection \<open>Core pak verification\<close>

text \<open>The tables \<^verbatim>\<open>core_hashes\<close> and \<^verbatim>\<open>missionpack_hashes\<close>.\<close>

definition core_hashes :: "32 word list" where
  "core_hashes = [1566731103, 298122907, 412165236, 2991495316, 1197932710,
                  4087071573, 3709064859, 908855077, 977125798]"

definition missionpack_hashes :: "32 word list" where
  "missionpack_hashes = [2430342401, 511014160, 2662638993, 1438664554]"

text \<open>
  \<^verbatim>\<open>core_pak_state_t\<close>: two pointers to direct files, each null or not.  Two of them are
  the same object when they point to the same address.
\<close>

record core_pak_state =
  name_match :: "fsc_file_direct option"
  hash_match :: "fsc_file_direct option"

definition same_object :: "fsc_file_direct option \<Rightarrow> fsc_file_direct option \<Rightarrow> bool" where
  "same_object p q \<longleftrightarrow> map_option d_addr p = map_option d_addr q"

text \<open>
  The first loop of \<^verbatim>\<open>get_pak_state\<close>, over the files the file iterator yields for the
  name: \<open>Inl\<close> is the state the loop returns from within when the hash of a file
  matches, \<open>Inr\<close> the \<^verbatim>\<open>name_match\<close> it ends with.  Each \<^verbatim>\<open>continue\<close> of the code is a
  call on the remaining files with \<^verbatim>\<open>name_match\<close> unchanged; the assignment
  \<^verbatim>\<open>name_match = pk3\<close> at the end of the body is the call with the new value.  The
  argument \<open>mod_dir\<close> (\<^verbatim>\<open>mod\<close> in the code) is \<open>None\<close> for a null pointer.
\<close>

fun get_pak_state_files ::
  "fs_constants \<Rightarrow> fs_state \<Rightarrow> string option \<Rightarrow> 32 word \<Rightarrow> fsc_file list
     \<Rightarrow> fsc_file_direct option \<Rightarrow> (core_pak_state + fsc_file_direct option) option" where
  "get_pak_state_files c st mod_dir hash [] name_match0 = Some (Inr name_match0)"
| "get_pak_state_files c st mod_dir hash (file # files) name_match0 =
     (case file of
        File_direct pk3 \<Rightarrow>
          (case fs_file_disabled c st file (FD_CHECK_READ_INACTIVE_MODS c) of
             None \<Rightarrow> None
           | Some disabled \<Rightarrow>
               if disabled \<noteq> 0 then get_pak_state_files c st mod_dir hash files name_match0
               else if Q_stricmp (qp_ext file) ''.pk3'' \<noteq> 0
               then get_pak_state_files c st mod_dir hash files name_match0
               else if (case mod_dir of None \<Rightarrow> False
                        | Some m \<Rightarrow> Q_stricmp (fsc_get_mod_dir file) m \<noteq> 0)
               then get_pak_state_files c st mod_dir hash files name_match0
               else if pk3_hash pk3 = hash
               then Some (Inl \<lparr>name_match = Some pk3, hash_match = Some pk3\<rparr>)
               else get_pak_state_files c st mod_dir hash files (Some pk3))
      | _ \<Rightarrow> get_pak_state_files c st mod_dir hash files name_match0)"

text \<open>
  The second loop, over the pk3s the pk3 iterator yields for the hash: the first one
  that is not disabled, if any.
\<close>

fun get_pak_state_pk3s ::
  "fs_constants \<Rightarrow> fs_state \<Rightarrow> fsc_file_direct list \<Rightarrow> fsc_file_direct option option" where
  "get_pak_state_pk3s c st [] = Some None"
| "get_pak_state_pk3s c st (pk3 # pk3s) =
     (case fs_file_disabled c st (File_direct pk3) (FD_CHECK_READ_INACTIVE_MODS c) of
        None \<Rightarrow> None
      | Some disabled \<Rightarrow>
          if disabled \<noteq> 0 then get_pak_state_pk3s c st pk3s else Some (Some pk3))"

definition get_pak_state ::
  "fs_constants \<Rightarrow> fs_state \<Rightarrow> string option \<Rightarrow> string \<Rightarrow> 32 word \<Rightarrow> core_pak_state option" where
  "get_pak_state c st mod_dir filename hash =
     (case get_pak_state_files c st mod_dir hash (files_named st filename) None of
        None \<Rightarrow> None
      | Some (Inl result) \<Rightarrow> Some result
      | Some (Inr name_match1) \<Rightarrow>
          (case get_pak_state_pk3s c st (pk3s_with_hash st hash) of
             None \<Rightarrow> None
           | Some hash_match1 \<Rightarrow> Some \<lparr>name_match = name_match1, hash_match = hash_match1\<rparr>))"

text \<open>
  What the program prints and sets.  A message is a \<^verbatim>\<open>Com_Printf\<close> of
  \<^verbatim>\<open>generate_pak_warnings\<close> or \<^verbatim>\<open>fs_check_core_paks\<close> with its arguments (the mod directory,
  the file name and, where the message names it, the file found); the report of
  \<^verbatim>\<open>fs_check_core_paks\<close> holds the messages printed to the console, the messages
  appended to the warning popup stream, whether \<^verbatim>\<open>com_standalone\<close> was set, and whether
  the warning dialog was shown.  The popup stream has a buffer of 1024 bytes, and
  \<^verbatim>\<open>fsc_stream_append_string\<close>, which is not part of this file, cuts off what does not
  fit: \<open>warning_popup\<close> lists the appended messages in order, whatever part of their
  text the buffer then holds.  The stream starts empty, so its position is not zero
  exactly when a message has been appended.
\<close>

datatype fs_message =
    Misnamed string string fsc_file_direct
  | Incorrect_hash_found_at string string fsc_file_direct
  | Incorrect_hash string string
  | Not_found string string
  | Default_cfg_not_found
  | Enabling_standalone_mode

record check_report =
  console :: "fs_message list"
  warning_popup :: "fs_message list"
  com_standalone :: bool
  dialog_shown :: bool

text \<open>
  \<^verbatim>\<open>generate_pak_warnings\<close>: the messages for one pak, those for the console first,
  those for the popup second.
\<close>

definition generate_pak_warnings ::
  "string \<Rightarrow> string \<Rightarrow> core_pak_state \<Rightarrow> fs_message list \<times> fs_message list" where
  "generate_pak_warnings mod_dir filename state =
     (case hash_match state of
        Some found \<Rightarrow>
          if name_match state = None then ([Misnamed mod_dir filename found], [])
          else if \<not> same_object (name_match state) (hash_match state)
          then ([Incorrect_hash_found_at mod_dir filename found], [])
          else ([], [])
      | None \<Rightarrow>
          if name_match state \<noteq> None
          then ([Incorrect_hash mod_dir filename], [Incorrect_hash mod_dir filename])
          else ([Not_found mod_dir filename], [Not_found mod_dir filename]))"

text \<open>\<^verbatim>\<open>check_default_cfg_pk3\<close>, over the files the iterator yields for "default".\<close>

fun check_default_cfg_files ::
  "fs_constants \<Rightarrow> fs_state \<Rightarrow> string option \<Rightarrow> string \<Rightarrow> 32 word \<Rightarrow> fsc_file list \<Rightarrow> bool option" where
  "check_default_cfg_files c st mod_dir filename hash [] = Some False"
| "check_default_cfg_files c st mod_dir filename hash (file # files) =
     (case fs_file_disabled c st file (FD_CHECK_READ_INACTIVE_MODS c) of
        None \<Rightarrow> None
      | Some disabled \<Rightarrow>
          if disabled \<noteq> 0 then check_default_cfg_files c st mod_dir filename hash files
          else
            (case file of
               File_frompk3 p \<Rightarrow>
                 if Q_stricmp (qp_ext file) ''.cfg'' \<noteq> 0
                 then check_default_cfg_files c st mod_dir filename hash files
                 else if pk3_hash (source_pk3 p) = hash then Some True
                 else if (case mod_dir of None \<Rightarrow> False
                          | Some m \<Rightarrow> Q_stricmp (d_mod_dir (source_pk3 p)) m \<noteq> 0)
                 then check_default_cfg_files c st mod_dir filename hash files
                 else if Q_stricmp (d_qp_name (source_pk3 p)) filename = 0 then Some True
                 else check_default_cfg_files c st mod_dir filename hash files
             | _ \<Rightarrow> check_default_cfg_files c st mod_dir filename hash files))"

definition check_default_cfg_pk3 ::
  "fs_constants \<Rightarrow> fs_state \<Rightarrow> string option \<Rightarrow> string \<Rightarrow> 32 word \<Rightarrow> bool option" where
  "check_default_cfg_pk3 c st mod_dir filename hash =
     check_default_cfg_files c st mod_dir filename hash (files_named st ''default'')"

text \<open>
  \<^verbatim>\<open>va("pak%i", i)\<close> for the indices of the two tables, which are below 10 and print as
  one digit.
\<close>

definition pak_name :: "nat \<Rightarrow> string" where
  "pak_name i = ''pak'' @ [''0123456789'' ! i]"

text \<open>
  The states of the paks of a table: \<^verbatim>\<open>get_pak_state(mod, va("pak%i", i), hashes[i])\<close>
  for every index of the table, in order; \<open>None\<close> if one of the calls does not return.
\<close>

definition pak_states ::
  "fs_constants \<Rightarrow> fs_state \<Rightarrow> string \<Rightarrow> 32 word list \<Rightarrow> core_pak_state list option" where
  "pak_states c st mod_dir hashes =
     those (map (\<lambda>i. get_pak_state c st (Some mod_dir) (pak_name i) (hashes ! i)) [0..<length hashes])"

text \<open>The messages of a table: \<^verbatim>\<open>generate_pak_warnings\<close> for each of its paks, in order.\<close>

definition table_warnings ::
  "string \<Rightarrow> core_pak_state list \<Rightarrow> fs_message list \<times> fs_message list" where
  "table_warnings mod_dir states =
     (let each = map (\<lambda>i. generate_pak_warnings mod_dir (pak_name i) (states ! i)) [0..<length states]
      in (concat (map fst each), concat (map snd each)))"

text \<open>
  \<^verbatim>\<open>fs_check_core_paks\<close> (the section is compiled without \<^verbatim>\<open>STANDALONE\<close>).  The result
  is \<open>None\<close> when a call of \<^verbatim>\<open>get_pak_state\<close> or \<^verbatim>\<open>check_default_cfg_pk3\<close> does not
  return.  The dialog is shown in a build without \<^verbatim>\<open>DEDICATED\<close> when the popup stream
  holds text; what follows the dialog (\<^verbatim>\<open>Sys_Quit\<close> when the user cancels) is outside the
  report.
\<close>

definition fs_check_core_paks :: "fs_constants \<Rightarrow> fs_state \<Rightarrow> check_report option" where
  "fs_check_core_paks c st =
     (case pak_states c st (BASEGAME c) core_hashes of
        None \<Rightarrow> None
      | Some core_states \<Rightarrow>
     (case pak_states c st ''missionpack'' missionpack_hashes of
        None \<Rightarrow> None
      | Some missionpack_states \<Rightarrow>
          let missionpack_installed =
                list_ex (\<lambda>s. name_match s \<noteq> None \<or> hash_match s \<noteq> None) missionpack_states;
              have_id_pak =
                list_ex (\<lambda>s. hash_match s \<noteq> None) core_states \<or>
                list_ex (\<lambda>s. hash_match s \<noteq> None) missionpack_states
          in if Q_stricmp (com_basegame st) (BASEGAME c) \<noteq> 0 \<and> \<not> have_id_pak
             then Some \<lparr>console = [Enabling_standalone_mode], warning_popup = [],
                        com_standalone = True, dialog_shown = False\<rparr>
             else
               (let core_warnings = table_warnings (BASEGAME c) core_states;
                    missionpack_warnings =
                      (if missionpack_installed then table_warnings ''missionpack'' missionpack_states
                       else ([], []))
                in case (if name_match (core_states ! 0) \<noteq> None \<or> hash_match (core_states ! 0) \<noteq> None
                         then check_default_cfg_pk3 c st (Some (BASEGAME c)) ''pak0'' (core_hashes ! 0)
                         else Some True) of
                     None \<Rightarrow> None
                   | Some have_default_cfg \<Rightarrow>
                       let default_cfg_warning =
                             (if have_default_cfg then [] else [Default_cfg_not_found]);
                           popup = snd core_warnings @ snd missionpack_warnings @ default_cfg_warning
                       in Some \<lparr>console = fst core_warnings @ fst missionpack_warnings
                                           @ default_cfg_warning,
                                 warning_popup = popup,
                                 com_standalone = False,
                                 dialog_shown = (\<not> DEDICATED c \<and> popup \<noteq> [])\<rparr>)))"

text \<open>
  What the statements about the verification speak of: the files of a name that pass
  the tests of the first loop of \<^verbatim>\<open>get_pak_state\<close> (direct, not disabled, extension
  ".pk3", in the expected directory), in the order of the iteration, and whether a pk3
  passes the test of the second loop.
\<close>

definition is_pak_candidate :: "fs_constants \<Rightarrow> fs_state \<Rightarrow> string option \<Rightarrow> fsc_file \<Rightarrow> bool" where
  "is_pak_candidate c st mod_dir file \<longleftrightarrow>
     sourcetype file = FSC_SOURCETYPE_DIRECT \<and>
     fs_file_disabled c st file (FD_CHECK_READ_INACTIVE_MODS c) = Some 0 \<and>
     Q_stricmp (qp_ext file) ''.pk3'' = 0 \<and>
     (case mod_dir of None \<Rightarrow> True | Some m \<Rightarrow> Q_stricmp (fsc_get_mod_dir file) m = 0)"

definition pak_candidates_of ::
  "fs_constants \<Rightarrow> fs_state \<Rightarrow> string option \<Rightarrow> fsc_file list \<Rightarrow> fsc_file_direct list" where
  "pak_candidates_of c st mod_dir files =
     List.map_filter
       (\<lambda>file. case file of
                  File_direct pk3 \<Rightarrow> if is_pak_candidate c st mod_dir file then Some pk3 else None
                | _ \<Rightarrow> None)
       files"

definition pak_candidates ::
  "fs_constants \<Rightarrow> fs_state \<Rightarrow> string option \<Rightarrow> string \<Rightarrow> fsc_file_direct list" where
  "pak_candidates c st mod_dir filename = pak_candidates_of c st mod_dir (files_named st filename)"

definition pk3_usable :: "fs_constants \<Rightarrow> fs_state \<Rightarrow> fsc_file_direct \<Rightarrow> bool" where
  "pk3_usable c st pk3 \<longleftrightarrow>
     fs_file_disabled c st (File_direct pk3) (FD_CHECK_READ_INACTIVE_MODS c) = Some 0"

text \<open>
  \<open>no_hash_match\<close>: \<^verbatim>\<open>get_pak_state\<close> returns for every pak of the table, with a null
  \<^verbatim>\<open>hash_match\<close>.
\<close>

definition no_hash_match :: "fs_constants \<Rightarrow> fs_state \<Rightarrow> string \<Rightarrow> 32 word list \<Rightarrow> bool" where
  "no_hash_match c st mod_dir hashes \<longleftrightarrow>
     list_all
       (\<lambda>i. case get_pak_state c st (Some mod_dir) (pak_name i) (hashes ! i) of
               None \<Rightarrow> False
             | Some state \<Rightarrow> hash_match state = None)
       [0..<length hashes]"

subsection \<open>Examples\<close>

text \<open>
  Constants, a state and files to evaluate the functions on: the five checks numbered
  1, 2, 4, 8, 16; a pure list of two buckets holding the hashes 10 and 11; the read level
  0 and the list level 1; no servercfg directory; an index without files; a pk3 with
  hash 99 in the directory "othermod", which is no active mod, and a file from that pk3.
\<close>

definition constants_example :: fs_constants where
  "constants_example =
     \<lparr>FD_CHECK_PURE_LIST = 1, FD_CHECK_READ_INACTIVE_MODS = 2,
      FD_CHECK_READ_INACTIVE_MODS_IGNORE_SERVERCFG = 4, FD_CHECK_LIST_INACTIVE_MODS = 8,
      FD_CHECK_LIST_SERVERCFG_LIMIT = 16,
      BASEGAME = ''baseq3'', BASETA = ''missionpack'', FSC_MAX_MODDIR = 32,
      FS_SERVERCFG_ENABLED = True, DEDICATED = False,
      FS_CORE_PAKS = Some [1566731103, 298122907], FS_CORE_PAKS_TEAMARENA = Some [2430342401]\<rparr>"

definition pure_list_example :: "pk3_list \<times> zone" where
  "pure_list_example =
     (case pk3_list_insert_all \<lparr>ht = \<lparr>buckets = [0, 0], bucket_count = 2, element_count = 0\<rparr>\<rparr>
             zone_example [10, 11] of
        None \<Rightarrow> (\<lparr>ht = \<lparr>buckets = [0, 0], bucket_count = 2, element_count = 0\<rparr>\<rparr>, zone_example)
      | Some built \<Rightarrow> built)"

definition state_example :: fs_state where
  "state_example =
     \<lparr>connected_server_pure_list = fst pure_list_example,
      zone_memory = snd pure_list_example,
      connected_server_pure_state = 1,
      fs_read_inactive_mods = 0, fs_list_inactive_mods = 1, fs_servercfg_listlimit = 0,
      current_mod_dir = [], com_basegame = ''baseq3'', current_game_dir = ''baseq3'',
      fs_servercfg_tokens = [], fs_generate_path = Some,
      files_named = (\<lambda>name. []), pk3s_with_hash = (\<lambda>hash. [])\<rparr>"

definition pk3_example :: fsc_file_direct where
  "pk3_example =
     \<lparr>d_addr = 100, d_flags = 0, d_qp_name = ''extra'', d_qp_ext = ''.pk3'',
      d_mod_dir = ''othermod'', pk3_hash = 99\<rparr>"

definition file_example :: fsc_file where
  "file_example =
     File_frompk3 \<lparr>p_flags = 0, p_qp_name = ''readme'', p_qp_ext = ''.txt'',
                   source_pk3 = pk3_example, header_position = 0\<rparr>"

text \<open>
  For the verification of the core paks: two pk3s named "pak0" in "baseq3", neither with
  the hash of the table; a state whose index yields the two, in this order, for the name
  "pak0"; and a state whose base game is "mygame", with an index without files.
\<close>

definition pak_a :: fsc_file_direct where
  "pak_a =
     \<lparr>d_addr = 201, d_flags = 0, d_qp_name = ''pak0'', d_qp_ext = ''.pk3'',
      d_mod_dir = ''baseq3'', pk3_hash = 7\<rparr>"

definition pak_b :: fsc_file_direct where
  "pak_b =
     \<lparr>d_addr = 202, d_flags = 0, d_qp_name = ''pak0'', d_qp_ext = ''.pk3'',
      d_mod_dir = ''baseq3'', pk3_hash = 8\<rparr>"

definition state_two_paks :: fs_state where
  "state_two_paks =
     state_example
       \<lparr>files_named := (\<lambda>name. if name = ''pak0'' then [File_direct pak_a, File_direct pak_b] else [])\<rparr>"

definition state_other_game :: fs_state where
  "state_other_game = state_example \<lparr>com_basegame := ''mygame''\<rparr>"

section \<open>Theorems\<close>

subsection \<open>Hash table\<close>

lemma next_loop_nonnull: "entry \<noteq> 0 \<Longrightarrow> fs_hashtable_next_loop bs cur lim entry = (entry, cur)"
  by simp

lemma next_loop_null_end: "lim \<le> cur \<Longrightarrow> fs_hashtable_next_loop bs cur lim 0 = (0, cur)"
  by simp

lemma next_loop_null_step:
  "cur < lim \<Longrightarrow> fs_hashtable_next_loop bs cur lim 0 = fs_hashtable_next_loop bs (cur + 1) lim (bs ! cur)"
  by (subst fs_hashtable_next_loop.simps) simp

lemma next_loop_result_null:
  "fs_hashtable_next_loop bs cur lim entry = (0, c) \<Longrightarrow> entry = 0"
  by (subst (asm) fs_hashtable_next_loop.simps) (simp split: if_splits)

lemma next_null_step:
  assumes "cur < lim"
  shows "fs_hashtable_next tbl mem \<lparr>current_bucket = cur, bucket_limit = lim, current_entry = 0\<rparr> =
         fs_hashtable_next tbl mem \<lparr>current_bucket = cur + 1, bucket_limit = lim, current_entry = buckets tbl ! cur\<rparr>"
proof -
  obtain e c where ec: "fs_hashtable_next_loop (buckets tbl) (cur + 1) lim (buckets tbl ! cur) = (e, c)"
    by (cases "fs_hashtable_next_loop (buckets tbl) (cur + 1) lim (buckets tbl ! cur)")
  have l: "fs_hashtable_next_loop (buckets tbl) cur lim 0 = (e, c)"
    using next_loop_null_step [OF assms, of "buckets tbl"] ec by simp
  show ?thesis
  proof (cases "e = 0")
    case True
    then have "buckets tbl ! cur = 0" using ec next_loop_result_null by blast
    then show ?thesis using True ec l by (simp add: fs_hashtable_next_def)
  next
    case False
    then show ?thesis using ec l by (simp add: fs_hashtable_next_def)
  qed
qed

lemma next_chain_cons:
  "is_chain mem p (x # xs) \<Longrightarrow>
   fs_hashtable_next tbl mem \<lparr>current_bucket = cur, bucket_limit = lim, current_entry = p\<rparr> =
     (x, \<lparr>current_bucket = cur, bucket_limit = lim, current_entry = hte_next (mem x)\<rparr>)"
  by (simp add: fs_hashtable_next_def)

lemma next_exhausted:
  "lim \<le> cur \<Longrightarrow>
   fs_hashtable_next tbl mem \<lparr>current_bucket = cur, bucket_limit = lim, current_entry = 0\<rparr> =
     (0, \<lparr>current_bucket = cur, bucket_limit = lim, current_entry = 0\<rparr>)"
  by (simp add: fs_hashtable_next_def)

lemma entries_walk_chain:
  assumes "is_chain mem p xs"
    and "fs_hashtable_entries tbl mem \<lparr>current_bucket = cur, bucket_limit = lim, current_entry = 0\<rparr> = Some r"
  shows "fs_hashtable_entries tbl mem \<lparr>current_bucket = cur, bucket_limit = lim, current_entry = p\<rparr> = Some (xs @ r)"
  using assms
proof (induction xs arbitrary: p)
  case Nil
  then show ?case by simp
next
  case (Cons x xs)
  have "fs_hashtable_entries tbl mem \<lparr>current_bucket = cur, bucket_limit = lim, current_entry = hte_next (mem x)\<rparr>
          = Some (xs @ r)"
    using Cons by simp
  moreover have "x \<noteq> 0" using Cons.prems by simp
  ultimately show ?case
    by (subst fs_hashtable_entries.simps) (simp add: next_chain_cons [OF Cons.prems(1)])
qed

lemma entries_buckets:
  assumes "list_all2 (is_chain mem) (buckets tbl) bss" and "lim \<le> length (buckets tbl)"
  shows "fs_hashtable_entries tbl mem \<lparr>current_bucket = cur, bucket_limit = lim, current_entry = 0\<rparr>
           = Some (concat (map ((!) bss) [cur..<lim]))"
proof (induction "lim - cur" arbitrary: cur)
  case 0
  then have "lim \<le> cur" by simp
  then show ?case
    by (subst fs_hashtable_entries.simps) (simp add: next_exhausted)
next
  case (Suc n)
  then have lt: "cur < lim" and n: "n = lim - (cur + 1)" by simp_all
  have ch: "is_chain mem (buckets tbl ! cur) (bss ! cur)"
    using assms lt by (simp add: list_all2_conv_all_nth)
  have rest: "fs_hashtable_entries tbl mem \<lparr>current_bucket = cur + 1, bucket_limit = lim, current_entry = 0\<rparr>
           = Some (concat (map ((!) bss) [cur + 1..<lim]))"
    using Suc.hyps(1) [OF n] .
  have "fs_hashtable_entries tbl mem \<lparr>current_bucket = cur, bucket_limit = lim, current_entry = 0\<rparr>
      = fs_hashtable_entries tbl mem \<lparr>current_bucket = cur + 1, bucket_limit = lim, current_entry = buckets tbl ! cur\<rparr>"
    by (subst fs_hashtable_entries.simps, subst (2) fs_hashtable_entries.simps)
       (simp add: next_null_step [OF lt])
  also have "\<dots> = Some (bss ! cur @ concat (map ((!) bss) [cur + 1..<lim]))"
    by (rule entries_walk_chain [OF ch rest])
  also have "\<dots> = Some (concat (map ((!) bss) [cur..<lim]))"
    using lt by (simp add: upt_conv_Cons)
  finally show ?case .
qed


lemma is_chain_next_eq:
  "(\<And>a. a \<in> set xs \<Longrightarrow> hte_next (m1 a) = hte_next (m2 a)) \<Longrightarrow> is_chain m1 p xs = is_chain m2 p xs"
  by (induction xs arbitrary: p) auto

lemma concat_update_cons_set:
  assumes "i < length bss"
  shows "set (concat (bss[i := e # bss ! i])) = insert e (set (concat bss))"
proof -
  have "bss = take i bss @ (bss ! i) # drop (Suc i) bss"
    using assms by (rule id_take_nth_drop)
  then have "set (concat bss) = set (concat (take i bss)) \<union> set (bss ! i) \<union> set (concat (drop (Suc i) bss))"
    by (metis concat.simps(2) concat_append set_append sup_assoc)
  moreover have "set (concat (bss[i := e # bss ! i])) =
      set (concat (take i bss)) \<union> set (e # bss ! i) \<union> set (concat (drop (Suc i) bss))"
    using assms by (simp add: upd_conv_take_nth_drop Un_assoc)
  ultimately show ?thesis by auto
qed

lemma concat_update_cons_distinct:
  assumes "i < length bss" and "distinct (concat bss)" and "e \<notin> set (concat bss)"
  shows "distinct (concat (bss[i := e # bss ! i]))"
proof -
  have split: "bss = take i bss @ (bss ! i) # drop (Suc i) bss"
    using assms(1) by (rule id_take_nth_drop)
  have d: "distinct (concat (take i bss) @ (bss ! i) @ concat (drop (Suc i) bss))"
    using assms(2) by (subst (asm) split) simp
  have e: "e \<notin> set (concat (take i bss) @ (bss ! i) @ concat (drop (Suc i) bss))"
    using assms(3) by (subst (asm) split) simp
  have "concat (bss[i := e # bss ! i]) = concat (take i bss) @ (e # bss ! i) @ concat (drop (Suc i) bss)"
    using assms(1) by (simp add: upd_conv_take_nth_drop)
  then show ?thesis using d e by auto
qed

lemma concat_update_cons_length:
  assumes "i < length bss"
  shows "length (concat (bss[i := e # bss ! i])) = Suc (length (concat bss))"
proof -
  have split: "bss = take i bss @ (bss ! i) # drop (Suc i) bss"
    using assms(1) by (rule id_take_nth_drop)
  have "length (concat bss) = length (concat (take i bss)) + length (bss ! i) + length (concat (drop (Suc i) bss))"
    by (subst split) simp
  moreover have "length (concat (bss[i := e # bss ! i])) =
      length (concat (take i bss)) + Suc (length (bss ! i)) + length (concat (drop (Suc i) bss))"
    using assms(1) by (simp add: upd_conv_take_nth_drop)
  ultimately show ?thesis by simp
qed

lemma nth_subset_concat:
  assumes "i < length bss"
  shows "set (bss ! i) \<subseteq> set (concat bss)"
proof
  fix x
  assume "x \<in> set (bss ! i)"
  with assms have "bss ! i \<in> set bss" and "x \<in> set (bss ! i)" by simp_all
  then show "x \<in> set (concat bss)" by auto
qed

lemma ht_insert_chains:
  assumes inv: "ht_chains h mem bss" and pos: "0 < bucket_count h"
    and e0: "e \<noteq> 0" and fresh: "e \<notin> set (concat bss)"
  shows "\<exists>h1 mem1. fs_hashtable_insert h mem e hash = Some (h1, mem1) \<and>
           ht_chains h1 mem1 (bss[unat hash mod bucket_count h := e # bss ! (unat hash mod bucket_count h)]) \<and>
           bucket_count h1 = bucket_count h \<and>
           buckets h1 ! (unat hash mod bucket_count h) = e \<and>
           element_count h1 = element_count h + 1 \<and>
           mem1 = mem(e := (mem e)\<lparr>hte_next := buckets h ! (unat hash mod bucket_count h)\<rparr>)"
proof -
  let ?i = "unat hash mod bucket_count h"
  let ?mem1 = "mem(e := (mem e)\<lparr>hte_next := buckets h ! ?i\<rparr>)"
  let ?h1 = "h\<lparr>buckets := (buckets h)[?i := e], element_count := element_count h + 1\<rparr>"
  have len: "length (buckets h) = bucket_count h" and all2: "list_all2 (is_chain mem) (buckets h) bss"
    and dist: "distinct (concat bss)" and cnt: "element_count h = length (concat bss)"
    using inv by (simp_all add: ht_chains_def)
  have lenb: "length bss = bucket_count h" using all2 len by (simp add: list_all2_lengthD [symmetric])
  have i: "?i < length bss" using pos lenb by simp
  have same: "is_chain ?mem1 p xs = is_chain mem p xs" if "set xs \<subseteq> set (concat bss)" for p xs
    using that fresh by (intro is_chain_next_eq) auto
  have all2': "list_all2 (is_chain ?mem1) (buckets h) bss"
    using all2 same nth_subset_concat [of _ bss]
    by (simp add: list_all2_conv_all_nth)
  have "is_chain mem (buckets h ! ?i) (bss ! ?i)"
    using all2 i by (simp add: list_all2_conv_all_nth)
  then have "is_chain ?mem1 (buckets h ! ?i) (bss ! ?i)"
    using same nth_subset_concat [OF i] by simp
  then have head: "is_chain ?mem1 e (e # bss ! ?i)"
    using e0 by simp
  have "list_all2 (is_chain ?mem1) ((buckets h)[?i := e]) (bss[?i := e # bss ! ?i])"
    using all2' head by (rule list_all2_update_cong)
  then have "ht_chains ?h1 ?mem1 (bss[?i := e # bss ! ?i])"
    using len dist fresh cnt i
    by (simp add: ht_chains_def concat_update_cons_distinct concat_update_cons_length)
  moreover have "fs_hashtable_insert h mem e hash = Some (?h1, ?mem1)"
    using pos e0 by (simp add: fs_hashtable_insert_def Let_def)
  moreover have "buckets ?h1 ! ?i = e" using i lenb len by simp
  ultimately show ?thesis by simp
qed

lemma fs_hashtable_initialize_returns:
  "(\<exists>h. fs_hashtable_initialize n = Some h) \<longleftrightarrow> 0 < sint n"
  by (simp add: fs_hashtable_initialize_def)

lemma ht_initialize_chains:
  assumes "fs_hashtable_initialize n = Some h"
  shows "ht_chains h mem (replicate (bucket_count h) [])" and "0 < bucket_count h"
    and "length (buckets h) = bucket_count h" and "int (bucket_count h) = sint n"
  using assms
  by (auto simp add: fs_hashtable_initialize_def ht_chains_def list_all2_conv_all_nth
      split: if_splits)

lemma ht_insert_head:
  assumes "0 < bucket_count h" and "length (buckets h) = bucket_count h" and "entry \<noteq> 0"
  shows "\<exists>h2 mem2. fs_hashtable_insert h mem entry hash = Some (h2, mem2) \<and>
           bucket_count h2 = bucket_count h \<and> length (buckets h2) = bucket_count h2 \<and>
           buckets h2 ! (unat hash mod bucket_count h) = entry \<and>
           hte_next (mem2 entry) = buckets h ! (unat hash mod bucket_count h)"
  using assms by (simp add: fs_hashtable_insert_def Let_def)

lemma ht_insert_all_shape:
  assumes "0 < bucket_count h" and "length (buckets h) = bucket_count h"
    and "0 \<notin> set (map fst ops)"
  shows "\<exists>h1 mem1. fs_hashtable_insert_all h mem ops = Some (h1, mem1) \<and>
           bucket_count h1 = bucket_count h \<and> length (buckets h1) = bucket_count h1"
  using assms
proof (induction ops arbitrary: h mem)
  case Nil
  then show ?case by simp
next
  case (Cons op ops)
  obtain e hash where op: "op = (e, hash)" by (cases op)
  have e0: "e \<noteq> 0" using Cons.prems(3) op by auto
  from ht_insert_head [OF Cons.prems(1,2) e0, of mem hash]
  obtain h2 mem2 where ins: "fs_hashtable_insert h mem e hash = Some (h2, mem2)"
    and bc: "bucket_count h2 = bucket_count h" and len: "length (buckets h2) = bucket_count h2"
    by blast
  have "\<exists>h1 mem1. fs_hashtable_insert_all h2 mem2 ops = Some (h1, mem1) \<and>
           bucket_count h1 = bucket_count h2 \<and> length (buckets h1) = bucket_count h1"
    using Cons.prems(1,3) bc len by (intro Cons.IH) simp_all
  then show ?case using ins bc by (simp add: op)
qed

lemma ht_targeted_entries:
  assumes inv: "ht_chains h mem bss" and pos: "0 < bucket_count h"
  shows "fs_hashtable_entries h mem (fs_hashtable_iterate h hash False)
           = Some (bss ! (unat hash mod bucket_count h))"
proof -
  let ?i = "unat hash mod bucket_count h"
  have len: "length (buckets h) = bucket_count h" and all2: "list_all2 (is_chain mem) (buckets h) bss"
    using inv by (simp_all add: ht_chains_def)
  have "?i + 1 \<le> length (buckets h)" using pos len by (simp add: Suc_leI)
  from entries_buckets [OF all2 this, of ?i]
  show ?thesis using pos by (simp add: fs_hashtable_iterate_def)
qed

lemma ht_all_entries:
  assumes inv: "ht_chains h mem bss"
  shows "fs_hashtable_entries h mem (fs_hashtable_iterate h hash True) = Some (concat bss)"
proof -
  have len: "length (buckets h) = bucket_count h" and all2: "list_all2 (is_chain mem) (buckets h) bss"
    using inv by (simp_all add: ht_chains_def)
  have lenb: "length bss = bucket_count h" using all2 len by (simp add: list_all2_lengthD [symmetric])
  have "map ((!) bss) [0..<bucket_count h] = bss"
    using lenb map_nth [of bss] by simp
  with entries_buckets [OF all2, of "bucket_count h" 0] len
  show ?thesis by (simp add: fs_hashtable_iterate_def)
qed

lemma bucket_chain_Nil: "bucket_chain n [] i = []"
  by (simp add: bucket_chain_def)

lemma bucket_chain_Cons:
  "bucket_chain n ((e, hash) # ops) i =
     (if unat hash mod n = i then bucket_chain n ops i @ [e] else bucket_chain n ops i)"
  by (simp add: bucket_chain_def)

lemma ht_insert_all_chains:
  assumes "ht_chains h mem bss" and "0 < bucket_count h"
    and "distinct (map fst ops)" and "0 \<notin> set (map fst ops)"
    and "set (map fst ops) \<inter> set (concat bss) = {}"
  shows "\<exists>h1 mem1. fs_hashtable_insert_all h mem ops = Some (h1, mem1) \<and>
           ht_chains h1 mem1 (map (\<lambda>i. bucket_chain (bucket_count h) ops i @ bss ! i) [0..<bucket_count h]) \<and>
           bucket_count h1 = bucket_count h"
  using assms
proof (induction ops arbitrary: h mem bss)
  case Nil
  have "length bss = bucket_count h"
    using Nil.prems(1) by (auto simp: ht_chains_def dest: list_all2_lengthD)
  then have "map (\<lambda>i. bss ! i) [0..<bucket_count h] = bss"
    using map_nth [of bss] by simp
  then show ?case using Nil.prems(1) by (simp add: bucket_chain_Nil)
next
  case (Cons op ops)
  obtain e hash where op: "op = (e, hash)" by (cases op)
  let ?n = "bucket_count h"
  let ?i = "unat hash mod ?n"
  let ?bss1 = "bss[?i := e # bss ! ?i]"
  have lenb: "length bss = ?n"
    using Cons.prems(1) by (auto simp: ht_chains_def dest: list_all2_lengthD)
  have i: "?i < length bss" using Cons.prems(2) lenb by simp
  have e0: "e \<noteq> 0" and fresh: "e \<notin> set (concat bss)"
    using Cons.prems(4,5) op by auto
  from ht_insert_chains [OF Cons.prems(1,2) e0 fresh, of hash]
  obtain h1 mem1 where ins: "fs_hashtable_insert h mem e hash = Some (h1, mem1)"
    and inv1: "ht_chains h1 mem1 ?bss1" and bc1: "bucket_count h1 = ?n"
    by blast
  have s1: "set (concat ?bss1) = insert e (set (concat bss))"
    by (rule concat_update_cons_set [OF i])
  have "e \<notin> set (map fst ops)" using Cons.prems(3) op by simp
  moreover have "set (map fst ops) \<inter> set (concat bss) = {}" using Cons.prems(5) by auto
  ultimately have disj1: "set (map fst ops) \<inter> set (concat ?bss1) = {}"
    unfolding s1 by blast
  have "\<exists>h2 mem2. fs_hashtable_insert_all h1 mem1 ops = Some (h2, mem2) \<and>
           ht_chains h2 mem2 (map (\<lambda>i. bucket_chain (bucket_count h1) ops i @ ?bss1 ! i) [0..<bucket_count h1]) \<and>
           bucket_count h2 = bucket_count h1"
    using Cons.prems(2,3,4) bc1 op
    by (intro Cons.IH [OF inv1 _ _ _ disj1]) simp_all
  then obtain h2 mem2 where all: "fs_hashtable_insert_all h1 mem1 ops = Some (h2, mem2)"
    and inv2: "ht_chains h2 mem2 (map (\<lambda>i. bucket_chain ?n ops i @ ?bss1 ! i) [0..<?n])"
    and bc2: "bucket_count h2 = ?n"
    using bc1 by auto
  have "map (\<lambda>i. bucket_chain ?n ops i @ ?bss1 ! i) [0..<?n] =
        map (\<lambda>i. bucket_chain ?n (op # ops) i @ bss ! i) [0..<?n]"
    using lenb by (auto simp: op bucket_chain_Cons nth_list_update)
  with inv2 all ins bc2 show ?case by (simp add: op)
qed

lemma next_targeted_head:
  assumes "0 < bucket_count h" and "buckets h ! (unat hash mod bucket_count h) \<noteq> 0"
  shows "fst (fs_hashtable_next h mem (fs_hashtable_iterate h hash False)) = buckets h ! (unat hash mod bucket_count h)"
  using assms
  by (simp add: fs_hashtable_iterate_def fs_hashtable_next_def
      next_loop_null_step [of "unat hash mod bucket_count h" "unat hash mod bucket_count h + 1", simplified])

lemma entries_no_buckets:
  assumes "bucket_count z = 0"
  shows "fs_hashtable_entries z mem (fs_hashtable_iterate z hash iterate_all) = Some []"
  using assms
  by (subst fs_hashtable_entries.simps) (simp add: fs_hashtable_iterate_def next_exhausted)

lemma set_concat_bucket_chains:
  assumes "0 < n"
  shows "set (concat (map (bucket_chain n ops) [0..<n])) = set (map fst ops)"
proof -
  have "e \<in> set (concat (map (bucket_chain n ops) [0..<n])) \<longleftrightarrow> e \<in> set (map fst ops)" for e
  proof
    assume "e \<in> set (concat (map (bucket_chain n ops) [0..<n]))"
    then show "e \<in> set (map fst ops)" by (auto simp: bucket_chain_def)
  next
    assume "e \<in> set (map fst ops)"
    then obtain hash where m: "(e, hash) \<in> set ops" by auto
    then have "e \<in> set (bucket_chain n ops (unat hash mod n))"
      by (force simp: bucket_chain_def)
    moreover have "unat hash mod n < n" using assms by simp
    ultimately show "e \<in> set (concat (map (bucket_chain n ops) [0..<n]))" by auto
  qed
  then show ?thesis by blast
qed

text \<open>
  Claim C8, as amended.  Take an initialized index (\<^verbatim>\<open>fs_hashtable_initialize\<close> has
  returned) and insert the non-null entries \<open>ops\<close> with their hashes, in this order.
  Every call returns, and in the resulting index
  \<^item> a further insertion of any non-null entry, new or not, puts the entry at the head
    of bucket \<open>hash % bucket_count\<close>, linked to the former head, and the entry is the
    first one the targeted iteration that follows returns;
  \<^item> if no entry was inserted more than once (the link is intrusive, so an object can
    be in one chain only), then for every inserted entry the targeted iteration with
    the entry's hash (\<^verbatim>\<open>iterate_all\<close> false, advanced with \<^verbatim>\<open>fs_hashtable_next\<close> until it
    returns null) yields that entry: it yields exactly the chain of bucket
    \<open>hash % bucket_count\<close>, the most recently inserted entry first; and with
    \<^verbatim>\<open>iterate_all\<close> true the cursor walks the buckets in order and yields every stored
    entry, each exactly once;
  \<^item> on an index whose bucket count is zero the cursor is the one of \<^verbatim>\<open>iterate_all\<close>,
    over no bucket at all, and yields nothing (nothing can be stored there).
\<close>

theorem fs_hashtable_bucket_invariant:
  assumes "fs_hashtable_initialize n = Some h0" and "0 \<notin> set (map fst ops)"
  shows "\<exists>h mem1.
      fs_hashtable_insert_all h0 mem ops = Some (h, mem1) \<and>
      bucket_count h = bucket_count h0 \<and> int (bucket_count h0) = sint n \<and>
      (\<forall>entry hash. entry \<noteq> 0 \<longrightarrow>
          (\<exists>h2 mem2. fs_hashtable_insert h mem1 entry hash = Some (h2, mem2) \<and>
             buckets h2 ! (unat hash mod bucket_count h) = entry \<and>
             hte_next (mem2 entry) = buckets h ! (unat hash mod bucket_count h) \<and>
             fst (fs_hashtable_next h2 mem2 (fs_hashtable_iterate h2 hash False)) = entry)) \<and>
      (distinct (map fst ops) \<longrightarrow>
         (\<forall>(entry, hash) \<in> set ops.
             \<exists>es. fs_hashtable_entries h mem1 (fs_hashtable_iterate h hash False) = Some es \<and>
                  entry \<in> set es) \<and>
         (\<forall>hash. fs_hashtable_entries h mem1 (fs_hashtable_iterate h hash False)
                   = Some (bucket_chain (bucket_count h) ops (unat hash mod bucket_count h))) \<and>
         (\<forall>hash. fs_hashtable_entries h mem1 (fs_hashtable_iterate h hash True)
                   = Some (concat (map (bucket_chain (bucket_count h) ops) [0..<bucket_count h]))) \<and>
         set (concat (map (bucket_chain (bucket_count h) ops) [0..<bucket_count h])) = set (map fst ops) \<and>
         distinct (concat (map (bucket_chain (bucket_count h) ops) [0..<bucket_count h]))) \<and>
      (\<forall>z hash iterate_all. bucket_count z = 0 \<longrightarrow>
          fs_hashtable_iterate z hash iterate_all = fs_hashtable_iterate z hash True \<and>
          fs_hashtable_entries z mem1 (fs_hashtable_iterate z hash iterate_all) = Some [])"
proof -
  note init = ht_initialize_chains [OF assms(1)]
  define n0 where "n0 = bucket_count h0"
  have inv0: "ht_chains h0 mem (replicate n0 [])" and pos0: "0 < n0"
    and len0: "length (buckets h0) = n0"
    using init by (simp_all add: n0_def)
  from ht_insert_all_shape [OF init(2,3) assms(2), of mem]
  obtain h mem1 where all: "fs_hashtable_insert_all h0 mem ops = Some (h, mem1)"
    and bc: "bucket_count h = n0" and len: "length (buckets h) = bucket_count h"
    unfolding n0_def by blast
  have pos: "0 < bucket_count h" using bc pos0 by simp
  have head: "\<exists>h2 mem2. fs_hashtable_insert h mem1 entry hash = Some (h2, mem2) \<and>
             buckets h2 ! (unat hash mod bucket_count h) = entry \<and>
             hte_next (mem2 entry) = buckets h ! (unat hash mod bucket_count h) \<and>
             fst (fs_hashtable_next h2 mem2 (fs_hashtable_iterate h2 hash False)) = entry"
    if "entry \<noteq> 0" for entry hash
  proof -
    from ht_insert_head [OF pos len that, of mem1 hash]
    obtain h2 mem2 where ins: "fs_hashtable_insert h mem1 entry hash = Some (h2, mem2)"
      and bc2: "bucket_count h2 = bucket_count h"
      and hd: "buckets h2 ! (unat hash mod bucket_count h) = entry"
      and m2: "hte_next (mem2 entry) = buckets h ! (unat hash mod bucket_count h)"
      by blast
    have "fst (fs_hashtable_next h2 mem2 (fs_hashtable_iterate h2 hash False)) = entry"
      using next_targeted_head [of h2 hash mem2] bc2 hd pos that by simp
    then show ?thesis using ins hd m2 by simp
  qed
  have once: "(\<forall>(entry, hash) \<in> set ops.
             \<exists>es. fs_hashtable_entries h mem1 (fs_hashtable_iterate h hash False) = Some es \<and>
                  entry \<in> set es) \<and>
         (\<forall>hash. fs_hashtable_entries h mem1 (fs_hashtable_iterate h hash False)
                   = Some (bucket_chain n0 ops (unat hash mod n0))) \<and>
         (\<forall>hash. fs_hashtable_entries h mem1 (fs_hashtable_iterate h hash True)
                   = Some (concat (map (bucket_chain n0 ops) [0..<n0]))) \<and>
         set (concat (map (bucket_chain n0 ops) [0..<n0])) = set (map fst ops) \<and>
         distinct (concat (map (bucket_chain n0 ops) [0..<n0]))"
    if d: "distinct (map fst ops)"
  proof -
    have "\<exists>h1 m1. fs_hashtable_insert_all h0 mem ops = Some (h1, m1) \<and>
           ht_chains h1 m1 (map (\<lambda>i. bucket_chain (bucket_count h0) ops i @ replicate n0 [] ! i) [0..<bucket_count h0]) \<and>
           bucket_count h1 = bucket_count h0"
      using d assms(2) pos0 by (intro ht_insert_all_chains [OF inv0]) (simp_all add: n0_def)
    then obtain h1 m1 where all1: "fs_hashtable_insert_all h0 mem ops = Some (h1, m1)"
      and inv1: "ht_chains h1 m1 (map (\<lambda>i. bucket_chain n0 ops i @ replicate n0 [] ! i) [0..<n0])"
      unfolding n0_def by blast
    have same: "h1 = h" "m1 = mem1" using all all1 by simp_all
    have "map (\<lambda>i. bucket_chain n0 ops i @ replicate n0 [] ! i) [0..<n0] = map (bucket_chain n0 ops) [0..<n0]"
      by simp
    then have inv: "ht_chains h mem1 (map (bucket_chain n0 ops) [0..<n0])"
      using inv1 unfolding same by (simp only:)
    have targeted: "fs_hashtable_entries h mem1 (fs_hashtable_iterate h hash False)
                = Some (bucket_chain n0 ops (unat hash mod n0))" for hash
      using ht_targeted_entries [OF inv pos, of hash] pos0 bc by simp
    have found: "\<exists>es. fs_hashtable_entries h mem1 (fs_hashtable_iterate h hash False) = Some es \<and> entry \<in> set es"
      if "(entry, hash) \<in> set ops" for entry hash
    proof -
      have "entry \<in> set (bucket_chain n0 ops (unat hash mod n0))"
        using that by (force simp: bucket_chain_def)
      then show ?thesis using targeted by simp
    qed
    have every: "fs_hashtable_entries h mem1 (fs_hashtable_iterate h hash True)
                = Some (concat (map (bucket_chain n0 ops) [0..<n0]))" for hash
      using ht_all_entries [OF inv] .
    have stored: "set (concat (map (bucket_chain n0 ops) [0..<n0])) = set (map fst ops)"
      by (rule set_concat_bucket_chains [OF pos0])
    have dist: "distinct (concat (map (bucket_chain n0 ops) [0..<n0]))"
      using inv by (simp add: ht_chains_def)
    show ?thesis
      using found targeted every stored dist by blast
  qed
  have zero: "fs_hashtable_iterate z hash iterate_all = fs_hashtable_iterate z hash True \<and>
          fs_hashtable_entries z mem1 (fs_hashtable_iterate z hash iterate_all) = Some []"
    if "bucket_count z = 0" for z :: fs_hashtable and hash iterate_all
    using that entries_no_buckets [OF that] by (simp add: fs_hashtable_iterate_def)
  have size: "bucket_count h = bucket_count h0" "int (bucket_count h0) = sint n"
    using bc init(4) by (simp_all add: n0_def)
  show ?thesis
  proof (intro exI conjI)
    show "fs_hashtable_insert_all h0 mem ops = Some (h, mem1)" by (rule all)
    show "bucket_count h = bucket_count h0" by (rule size)
    show "int (bucket_count h0) = sint n" by (rule size)
    show "\<forall>entry hash. entry \<noteq> 0 \<longrightarrow>
          (\<exists>h2 mem2. fs_hashtable_insert h mem1 entry hash = Some (h2, mem2) \<and>
             buckets h2 ! (unat hash mod bucket_count h) = entry \<and>
             hte_next (mem2 entry) = buckets h ! (unat hash mod bucket_count h) \<and>
             fst (fs_hashtable_next h2 mem2 (fs_hashtable_iterate h2 hash False)) = entry)"
      using head by blast
    show "distinct (map fst ops) \<longrightarrow>
         (\<forall>(entry, hash) \<in> set ops.
             \<exists>es. fs_hashtable_entries h mem1 (fs_hashtable_iterate h hash False) = Some es \<and>
                  entry \<in> set es) \<and>
         (\<forall>hash. fs_hashtable_entries h mem1 (fs_hashtable_iterate h hash False)
                   = Some (bucket_chain (bucket_count h) ops (unat hash mod bucket_count h))) \<and>
         (\<forall>hash. fs_hashtable_entries h mem1 (fs_hashtable_iterate h hash True)
                   = Some (concat (map (bucket_chain (bucket_count h) ops) [0..<bucket_count h]))) \<and>
         set (concat (map (bucket_chain (bucket_count h) ops) [0..<bucket_count h])) = set (map fst ops) \<and>
         distinct (concat (map (bucket_chain (bucket_count h) ops) [0..<bucket_count h]))"
      unfolding bc using once by (rule impI)
    show "\<forall>z hash iterate_all. bucket_count z = 0 \<longrightarrow>
          fs_hashtable_iterate z hash iterate_all = fs_hashtable_iterate z hash True \<and>
          fs_hashtable_entries z mem1 (fs_hashtable_iterate z hash iterate_all) = Some []"
      using zero by blast
  qed
qed

theorem fs_hashtable_bucket_invariant_witness:
  "\<exists>h mem1.
      fs_hashtable_insert_all \<lparr>buckets = [0, 0, 0], bucket_count = 3, element_count = 0\<rparr>
        (cells zone_example) [(5, 3), (7, 4), (9, 6)] = Some (h, mem1) \<and>
      fs_hashtable_entries h mem1 (fs_hashtable_iterate h 6 False) = Some [9, 5] \<and>
      fs_hashtable_entries h mem1 (fs_hashtable_iterate h 4 False) = Some [7] \<and>
      fs_hashtable_entries h mem1 (fs_hashtable_iterate h 0 True) = Some [9, 5, 7] \<and>
      (\<exists>h2 mem2. fs_hashtable_insert h mem1 7 3 = Some (h2, mem2) \<and> buckets h2 ! 0 = 7 \<and>
         fst (fs_hashtable_next h2 mem2 (fs_hashtable_iterate h2 3 False)) = 7)"
proof -
  have d: "distinct (map fst [(5, 3), (7, 4), (9, 6 :: 32 word)] :: addr list)"
    and z: "0 \<notin> set (map fst [(5, 3), (7, 4), (9, 6 :: 32 word)] :: addr list)"
    by simp_all
  have init: "fs_hashtable_initialize 3 = Some \<lparr>buckets = [0, 0, 0], bucket_count = 3, element_count = 0\<rparr>"
    by (simp add: fs_hashtable_initialize_def numeral_3_eq_3)
  have c6: "bucket_chain 3 [(5, 3), (7, 4), (9, 6)] (unat (6 :: 32 word) mod 3) = [9, 5]"
    and c4: "bucket_chain 3 [(5, 3), (7, 4), (9, 6)] (unat (4 :: 32 word) mod 3) = [7]"
    and call: "concat (map (bucket_chain 3 [(5, 3), (7, 4), (9, 6)]) [0..<3]) = [9, 5, 7]"
    by (simp_all add: bucket_chain_def upt_rec)
  from fs_hashtable_bucket_invariant [OF init z, of "cells zone_example"] d
  obtain h mem1 where
    run: "fs_hashtable_insert_all \<lparr>buckets = [0, 0, 0], bucket_count = 3, element_count = 0\<rparr>
        (cells zone_example) [(5, 3), (7, 4), (9, 6)] = Some (h, mem1)"
    and bc: "bucket_count h = 3"
    and head: "\<forall>entry hash. entry \<noteq> 0 \<longrightarrow>
          (\<exists>h2 mem2. fs_hashtable_insert h mem1 entry hash = Some (h2, mem2) \<and>
             buckets h2 ! (unat hash mod bucket_count h) = entry \<and>
             hte_next (mem2 entry) = buckets h ! (unat hash mod bucket_count h) \<and>
             fst (fs_hashtable_next h2 mem2 (fs_hashtable_iterate h2 hash False)) = entry)"
    and targeted: "\<forall>hash. fs_hashtable_entries h mem1 (fs_hashtable_iterate h hash False)
                = Some (bucket_chain (bucket_count h) [(5, 3), (7, 4), (9, 6)] (unat hash mod bucket_count h))"
    and every: "\<forall>hash. fs_hashtable_entries h mem1 (fs_hashtable_iterate h hash True)
                = Some (concat (map (bucket_chain (bucket_count h) [(5, 3), (7, 4), (9, 6)]) [0..<bucket_count h]))"
    by auto
  have "(7 :: addr) \<noteq> 0" by simp
  with head have "\<exists>h2 mem2. fs_hashtable_insert h mem1 7 3 = Some (h2, mem2) \<and>
             buckets h2 ! (unat (3 :: 32 word) mod bucket_count h) = 7 \<and>
             hte_next (mem2 7) = buckets h ! (unat (3 :: 32 word) mod bucket_count h) \<and>
             fst (fs_hashtable_next h2 mem2 (fs_hashtable_iterate h2 3 False)) = 7"
    by blast
  then have again: "\<exists>h2 mem2. fs_hashtable_insert h mem1 7 3 = Some (h2, mem2) \<and> buckets h2 ! 0 = 7 \<and>
         fst (fs_hashtable_next h2 mem2 (fs_hashtable_iterate h2 3 False)) = 7"
    by (auto simp: bc)
  have t6: "fs_hashtable_entries h mem1 (fs_hashtable_iterate h 6 False) = Some [9, 5]"
    using targeted c6 by (simp add: bc)
  have t4: "fs_hashtable_entries h mem1 (fs_hashtable_iterate h 4 False) = Some [7]"
    using targeted c4 by (simp add: bc)
  have t0: "fs_hashtable_entries h mem1 (fs_hashtable_iterate h 0 True) = Some [9, 5, 7]"
    using every call by (simp add: bc)
  show ?thesis
    using run t6 t4 t0 again by blast
qed

text \<open>
  The claim as stated, for every entry inserted, fails when an entry is inserted a
  second time.  In an index of two buckets, insert the entry 5 with hash 0, the entry 7
  with hash 0, and the entry 7 again with hash 1: the second insertion of 7 overwrites
  the link from 7 to 5.  The targeted iteration with hash 0, the hash of the entry 5,
  then yields 7 alone, and the iteration over all buckets yields 7 twice and 5 never.
\<close>

theorem fs_hashtable_reinserted_entry:
  "fs_hashtable_yield 2 (cells zone_example) [(5, 0), (7, 0), (7, 1)] 0 False = Some [7] \<and>
   fs_hashtable_yield 2 (cells zone_example) [(5, 0), (7, 0), (7, 1)] 0 True = Some [7, 7]"
proof -
  define h where "h = \<lparr>buckets = [7, 7 :: addr], bucket_count = 2, element_count = 3\<rparr>"
  define mem1 where "mem1 = (cells zone_example)
      (5 := (cells zone_example 5)\<lparr>hte_next := 0\<rparr>, 7 := (cells zone_example 7)\<lparr>hte_next := 0\<rparr>)"
  have init: "fs_hashtable_initialize 2 = Some \<lparr>buckets = [0, 0], bucket_count = 2, element_count = 0\<rparr>"
    by (simp add: fs_hashtable_initialize_def numeral_2_eq_2)
  have run: "fs_hashtable_insert_all \<lparr>buckets = [0, 0], bucket_count = 2, element_count = 0\<rparr>
      (cells zone_example) [(5, 0), (7, 0), (7, 1)] = Some (h, mem1)"
    by (simp add: fs_hashtable_insert_def h_def mem1_def fun_eq_iff)
  have chains: "list_all2 (is_chain mem1) (buckets h) [[7], [7]]"
    by (simp add: h_def mem1_def)
  have targeted: "fs_hashtable_entries h mem1 (fs_hashtable_iterate h 0 False) = Some [7]"
    using entries_buckets [OF chains, where lim = 1 and cur = 0]
    by (simp add: h_def fs_hashtable_iterate_def)
  have every: "fs_hashtable_entries h mem1 (fs_hashtable_iterate h 0 True) = Some [7, 7]"
    using entries_buckets [OF chains, where lim = 2 and cur = 0]
    by (simp add: h_def fs_hashtable_iterate_def upt_rec)
  show ?thesis
    by (simp only: fs_hashtable_yield_def init run option.case prod.case targeted every simp_thms)
qed

subsection \<open>Pk3 list\<close>

lemma pk3_inv_chains: "pk3_inv pl z hs bss \<Longrightarrow> ht_chains (ht pl) (cells z) bss"
  unfolding pk3_inv_def by blast

lemma pk3_inv_buckets: "pk3_inv pl z hs bss \<Longrightarrow> 0 < bucket_count (ht pl)"
  unfolding pk3_inv_def by blast

lemma pk3_inv_length: "pk3_inv pl z hs bss \<Longrightarrow> length bss = bucket_count (ht pl)"
  unfolding pk3_inv_def ht_chains_def by (auto dest: list_all2_lengthD)

lemma pk3_inv_distinct: "pk3_inv pl z hs bss \<Longrightarrow> distinct hs"
  unfolding pk3_inv_def by blast

lemma pk3_inv_count: "pk3_inv pl z hs bss \<Longrightarrow> element_count (ht pl) = length hs"
  unfolding pk3_inv_def ht_chains_def by simp

lemma pk3_inv_allocated: "pk3_inv pl z hs bss \<Longrightarrow> a \<in> set (concat bss) \<Longrightarrow> a < next_free z"
  unfolding pk3_inv_def by blast

lemma pk3_inv_bucket_of:
  "pk3_inv pl z hs bss \<Longrightarrow> i < length bss \<Longrightarrow> a \<in> set (bss ! i) \<Longrightarrow>
   unat (entry_hash (cells z a)) mod bucket_count (ht pl) = i"
  unfolding pk3_inv_def by blast

lemma pk3_inv_position:
  "pk3_inv pl z hs bss \<Longrightarrow> a \<in> set (concat bss) \<Longrightarrow>
   0 < entry_position (cells z a) \<and> entry_position (cells z a) \<le> length hs \<and>
   hs ! (entry_position (cells z a) - 1) = entry_hash (cells z a)"
  unfolding pk3_inv_def by blast

lemma pk3_inv_stored:
  "pk3_inv pl z hs bss \<Longrightarrow> h \<in> set hs \<Longrightarrow> \<exists>a \<in> set (concat bss). entry_hash (cells z a) = h"
  unfolding pk3_inv_def by blast

lemma in_concat_nth: "a \<in> set (concat bss) \<Longrightarrow> \<exists>j < length bss. a \<in> set (bss ! j)"
  by (induction bss) (auto simp: nth_Cons split: nat.splits intro: exI [of _ 0])

lemma lookup_loop_entries:
  "fs_hashtable_entries h mem it = Some es \<Longrightarrow>
   pk3_list_lookup_loop h mem it hash =
     Some (case find (\<lambda>a. entry_hash (mem a) = hash) es of
             None \<Rightarrow> 0 | Some a \<Rightarrow> entry_position (mem a))"
proof (induction es arbitrary: it)
  case Nil
  obtain e it1 where n: "fs_hashtable_next h mem it = (e, it1)"
    by (cases "fs_hashtable_next h mem it")
  have "e = 0"
    using Nil
    by (subst (asm) fs_hashtable_entries.simps) (auto simp: n split: if_splits bind_splits)
  then show ?case
    by (subst pk3_list_lookup_loop.simps) (simp add: n)
next
  case (Cons x es)
  obtain e it1 where n: "fs_hashtable_next h mem it = (e, it1)"
    by (cases "fs_hashtable_next h mem it")
  have "e \<noteq> 0 \<and> e = x \<and> fs_hashtable_entries h mem it1 = Some es"
    using Cons.prems
    by (subst (asm) fs_hashtable_entries.simps) (auto simp: n split: if_splits bind_splits)
  then have e: "x \<noteq> 0" "e = x" and rest: "fs_hashtable_entries h mem it1 = Some es"
    by simp_all
  show ?case
    by (subst pk3_list_lookup_loop.simps) (simp add: n e Cons.IH [OF rest])
qed

lemma pk3_lookup_chain:
  assumes "pk3_inv pl z hs bss"
  shows "pk3_list_lookup pl z hash =
     Some (case find (\<lambda>a. entry_hash (cells z a) = hash) (bss ! (unat hash mod bucket_count (ht pl))) of
             None \<Rightarrow> 0 | Some a \<Rightarrow> entry_position (cells z a))"
proof -
  have "fs_hashtable_entries (ht pl) (cells z) (fs_hashtable_iterate (ht pl) hash False)
           = Some (bss ! (unat hash mod bucket_count (ht pl)))"
    using pk3_inv_chains [OF assms] pk3_inv_buckets [OF assms] by (rule ht_targeted_entries)
  then show ?thesis
    unfolding pk3_list_lookup_def by (rule lookup_loop_entries)
qed

lemma pk3_lookup_absent:
  assumes inv: "pk3_inv pl z hs bss" and "hash \<notin> set hs"
  shows "pk3_list_lookup pl z hash = Some 0"
proof -
  let ?i = "unat hash mod bucket_count (ht pl)"
  have i: "?i < length bss" using pk3_inv_length [OF inv] pk3_inv_buckets [OF inv] by simp
  have "find (\<lambda>a. entry_hash (cells z a) = hash) (bss ! ?i) = None"
  proof (rule ccontr)
    assume "find (\<lambda>a. entry_hash (cells z a) = hash) (bss ! ?i) \<noteq> None"
    then obtain a where "a \<in> set (bss ! ?i)" and ha: "entry_hash (cells z a) = hash"
      by (auto simp: find_None_iff)
    then have a: "a \<in> set (concat bss)" using nth_subset_concat [OF i] by auto
    from pk3_inv_position [OF inv this]
    have "0 < entry_position (cells z a)" and "entry_position (cells z a) \<le> length hs"
      and "hs ! (entry_position (cells z a) - 1) = entry_hash (cells z a)"
      by simp_all
    then have "entry_position (cells z a) - 1 < length hs"
      and "hs ! (entry_position (cells z a) - 1) = hash"
      using ha by simp_all
    then have "hash \<in> set hs" using nth_mem by blast
    with assms(2) show False by simp
  qed
  then show ?thesis by (simp add: pk3_lookup_chain [OF inv])
qed

lemma pk3_lookup_present:
  assumes inv: "pk3_inv pl z hs bss" and k: "k < length hs"
  shows "pk3_list_lookup pl z (hs ! k) = Some (k + 1)"
proof -
  let ?hash = "hs ! k"
  let ?i = "unat ?hash mod bucket_count (ht pl)"
  have "?hash \<in> set hs" using k by simp
  then obtain a where a: "a \<in> set (concat bss)" and ha: "entry_hash (cells z a) = ?hash"
    using pk3_inv_stored [OF inv] by blast
  from in_concat_nth [OF a] obtain j where j: "j < length bss" and aj: "a \<in> set (bss ! j)"
    by blast
  have "unat (entry_hash (cells z a)) mod bucket_count (ht pl) = j"
    using pk3_inv_bucket_of [OF inv j aj] .
  then have ji: "j = ?i" using ha by simp
  then have "\<exists>x \<in> set (bss ! ?i). entry_hash (cells z x) = ?hash"
    using aj ha by auto
  then obtain b where f: "find (\<lambda>a. entry_hash (cells z a) = ?hash) (bss ! ?i) = Some b"
    by (cases "find (\<lambda>a. entry_hash (cells z a) = ?hash) (bss ! ?i)") (auto simp: find_None_iff)
  then have bi: "b \<in> set (bss ! ?i)" and hb: "entry_hash (cells z b) = ?hash"
    by (auto simp: find_Some_iff)
  then have "b \<in> set (concat bss)" using nth_subset_concat [of ?i bss] j ji by auto
  from pk3_inv_position [OF inv this]
  have p0: "0 < entry_position (cells z b)" and p1: "entry_position (cells z b) \<le> length hs"
      and p2: "hs ! (entry_position (cells z b) - 1) = entry_hash (cells z b)"
    by simp_all
  have "distinct hs" using inv by (rule pk3_inv_distinct)
  then have "entry_position (cells z b) - 1 = k"
    using p0 p1 p2 hb k by (simp add: nth_eq_iff_index_eq)
  then have "entry_position (cells z b) = k + 1" using p0 by simp
  then show ?thesis using f by (simp add: pk3_lookup_chain [OF inv])
qed


lemma pk3_invI:
  assumes "ht_chains (ht pl) (cells z) bss" and "0 < bucket_count (ht pl)" and "0 < next_free z"
    and "\<And>a. a \<in> set (concat bss) \<Longrightarrow> a < next_free z"
    and "distinct hs" and "length (concat bss) = length hs"
    and "\<And>i a. i < length bss \<Longrightarrow> a \<in> set (bss ! i) \<Longrightarrow>
           unat (entry_hash (cells z a)) mod bucket_count (ht pl) = i"
    and "\<And>a. a \<in> set (concat bss) \<Longrightarrow>
           0 < entry_position (cells z a) \<and> entry_position (cells z a) \<le> length hs \<and>
           hs ! (entry_position (cells z a) - 1) = entry_hash (cells z a)"
    and "\<And>h. h \<in> set hs \<Longrightarrow> \<exists>a \<in> set (concat bss). entry_hash (cells z a) = h"
  shows "pk3_inv pl z hs bss"
  unfolding pk3_inv_def using assms by blast

lemma ht_chains_next_eq:
  assumes "\<And>a. hte_next (m1 a) = hte_next (m2 a)"
  shows "ht_chains h m1 bss = ht_chains h m2 bss"
proof -
  have "is_chain m1 p xs = is_chain m2 p xs" for p xs
    by (rule is_chain_next_eq) (rule assms)
  then have "is_chain m1 = is_chain m2" by (intro ext)
  then show ?thesis by (simp add: ht_chains_def)
qed

lemma pk3_initialize_inv:
  assumes "pk3_list_initialize n = Some pl" and "0 < next_free z"
  shows "pk3_inv pl z [] (replicate (bucket_count (ht pl)) [])"
proof -
  from assms(1) obtain h where init: "fs_hashtable_initialize n = Some h" and pl: "pl = \<lparr>ht = h\<rparr>"
    by (auto simp: pk3_list_initialize_def split: option.splits)
  note shape = ht_initialize_chains [OF init]
  have "pk3_inv \<lparr>ht = h\<rparr> z [] (replicate (bucket_count h) [])"
    using shape(1) [of "cells z"] shape(2) assms(2) by (intro pk3_invI) simp_all
  then show ?thesis by (simp add: pl)
qed

lemma pk3_list_initialize_returns:
  "(\<exists>pl. pk3_list_initialize n = Some pl) \<longleftrightarrow> 0 < sint n"
  by (simp add: pk3_list_initialize_def fs_hashtable_initialize_def)

lemma pk3_list_initialize_large: "pk3_list_initialize 2147483648 = None"
  by (simp add: pk3_list_initialize_def fs_hashtable_initialize_def)

lemma pk3_insert_present:
  assumes inv: "pk3_inv pl z hs bss" and "hash \<in> set hs"
  shows "pk3_list_insert pl z hash = Some (pl, z)"
proof -
  from assms(2) obtain k where "k < length hs" and "hs ! k = hash"
    by (auto simp: in_set_conv_nth)
  then have "pk3_list_lookup pl z hash = Some (k + 1)"
    using pk3_lookup_present [OF inv] by blast
  then show ?thesis by (simp add: pk3_list_insert_def)
qed

lemma pk3_insert_new:
  assumes inv: "pk3_inv pl z hs bss" and new: "hash \<notin> set hs"
  shows "\<exists>pl1 z1 bss1. pk3_list_insert pl z hash = Some (pl1, z1) \<and> pk3_inv pl1 z1 (hs @ [hash]) bss1"
proof -
  let ?a = "next_free z"
  let ?n = "bucket_count (ht pl)"
  let ?i = "unat hash mod ?n"
  let ?bss1 = "bss[?i := ?a # bss ! ?i]"
  have pos: "0 < ?n" using inv by (rule pk3_inv_buckets)
  have a0: "?a \<noteq> 0" using inv unfolding pk3_inv_def by blast
  have fresh: "?a \<notin> set (concat bss)" using pk3_inv_allocated [OF inv] by blast
  have i: "?i < length bss" using pk3_inv_length [OF inv] pos by simp
  from ht_insert_chains [OF pk3_inv_chains [OF inv] pos a0 fresh, of hash]
  obtain h1 mem1 where ins: "fs_hashtable_insert (ht pl) (cells z) ?a hash = Some (h1, mem1)"
    and inv1: "ht_chains h1 mem1 ?bss1" and bc1: "bucket_count h1 = ?n"
    and ec1: "element_count h1 = element_count (ht pl) + 1"
    and m1: "mem1 = (cells z)(?a := (cells z ?a)\<lparr>hte_next := buckets (ht pl) ! ?i\<rparr>)"
    by blast
  let ?mem2 = "mem1(?a := (mem1 ?a)\<lparr>entry_hash := hash, entry_position := element_count h1\<rparr>)"
  let ?pl1 = "pl\<lparr>ht := h1\<rparr>"
  let ?z1 = "z\<lparr>next_free := ?a + 1, cells := ?mem2\<rparr>"
  have res: "pk3_list_insert pl z hash = Some (?pl1, ?z1)"
    using pk3_lookup_absent [OF inv new] ins
    by (simp add: pk3_list_insert_def S_Malloc_def)
  have ec: "element_count h1 = length hs + 1"
    using ec1 pk3_inv_count [OF inv] by simp
  have old: "?mem2 x = cells z x" if "x \<noteq> ?a" for x
    using that m1 by simp
  have new_hash: "entry_hash (?mem2 ?a) = hash" and new_pos: "entry_position (?mem2 ?a) = length hs + 1"
    using ec by simp_all
  have stored: "set (concat ?bss1) = insert ?a (set (concat bss))"
    by (rule concat_update_cons_set [OF i])
  have c1: "ht_chains (ht ?pl1) (cells ?z1) ?bss1"
  proof -
    have "ht_chains h1 ?mem2 ?bss1 = ht_chains h1 mem1 ?bss1"
      by (rule ht_chains_next_eq) simp
    then show ?thesis using inv1 by simp
  qed
  have c4: "x < next_free ?z1" if "x \<in> set (concat ?bss1)" for x
  proof (cases "x = ?a")
    case True
    then show ?thesis by simp
  next
    case False
    then have "x \<in> set (concat bss)" using that unfolding stored by simp
    then have "x < next_free z" by (rule pk3_inv_allocated [OF inv])
    then show ?thesis by simp
  qed
  have c5: "distinct (hs @ [hash])" using pk3_inv_distinct [OF inv] new by simp
  have c6: "length (concat ?bss1) = length (hs @ [hash])"
    using concat_update_cons_length [OF i, of ?a] inv unfolding pk3_inv_def by simp
  have c7: "unat (entry_hash (cells ?z1 x)) mod bucket_count (ht ?pl1) = j"
    if j: "j < length ?bss1" and x: "x \<in> set (?bss1 ! j)" for j x
  proof (cases "x = ?a")
    case True
    have "j = ?i"
    proof (rule ccontr)
      assume "j \<noteq> ?i"
      then have "x \<in> set (bss ! j)" using x by simp
      then have "x \<in> set (concat bss)" using nth_subset_concat [of j bss] j by auto
      with fresh True show False by simp
    qed
    then show ?thesis using True new_hash bc1 by simp
  next
    case False
    then have "x \<in> set (bss ! j)"
      using x j by (cases "j = ?i") simp_all
    then have "unat (entry_hash (cells z x)) mod ?n = j"
      using pk3_inv_bucket_of [OF inv, of j x] j by simp
    then show ?thesis using old [OF False] bc1 by simp
  qed
  have c8: "0 < entry_position (cells ?z1 x) \<and> entry_position (cells ?z1 x) \<le> length (hs @ [hash]) \<and>
           (hs @ [hash]) ! (entry_position (cells ?z1 x) - 1) = entry_hash (cells ?z1 x)"
    if "x \<in> set (concat ?bss1)" for x
  proof (cases "x = ?a")
    case True
    then show ?thesis using new_hash new_pos by simp
  next
    case False
    then have "x \<in> set (concat bss)" using that unfolding stored by simp
    from pk3_inv_position [OF inv this]
    have p: "0 < entry_position (cells z x)" "entry_position (cells z x) \<le> length hs"
      "hs ! (entry_position (cells z x) - 1) = entry_hash (cells z x)"
      by simp_all
    then have "entry_position (cells z x) - 1 < length hs" by simp
    then have "(hs @ [hash]) ! (entry_position (cells z x) - 1) = entry_hash (cells z x)"
      using p(3) by (simp add: nth_append)
    moreover have "cells ?z1 x = cells z x" using old [OF False] by simp
    ultimately show ?thesis using p(1,2) by simp
  qed
  have c9: "\<exists>x \<in> set (concat ?bss1). entry_hash (cells ?z1 x) = h" if "h \<in> set (hs @ [hash])" for h
  proof (cases "h = hash")
    case True
    have "?a \<in> set (concat ?bss1)" unfolding stored by simp
    then show ?thesis using True new_hash by (intro bexI [of _ ?a]) simp_all
  next
    case False
    then have "h \<in> set hs" using that by simp
    from pk3_inv_stored [OF inv this]
    obtain x where x: "x \<in> set (concat bss)" and hx: "entry_hash (cells z x) = h" by blast
    then have "x \<noteq> ?a" using fresh by auto
    then have "entry_hash (cells ?z1 x) = h" using old hx by simp
    moreover have "x \<in> set (concat ?bss1)" using x unfolding stored by simp
    ultimately show ?thesis by blast
  qed
  have c2: "0 < bucket_count (ht ?pl1)" using bc1 pos by simp
  have c3: "0 < next_free ?z1" by simp
  have "pk3_inv ?pl1 ?z1 (hs @ [hash]) ?bss1"
    by (rule pk3_invI [OF c1 c2 c3 c4 c5 c6 c7 c8 c9])
  with res show ?thesis by blast
qed

lemma first_insertions_Nil: "first_insertions acc [] = acc"
  by (simp add: first_insertions_def)

lemma first_insertions_Cons:
  "first_insertions acc (h # hs) = first_insertions (if h \<in> set acc then acc else acc @ [h]) hs"
  by (simp add: first_insertions_def)

lemma first_insertions_extends: "\<exists>more. first_insertions acc hs = acc @ more"
proof (induction hs arbitrary: acc)
  case Nil
  then show ?case by (simp add: first_insertions_Nil)
next
  case (Cons h hs)
  obtain more where "first_insertions (if h \<in> set acc then acc else acc @ [h]) hs
      = (if h \<in> set acc then acc else acc @ [h]) @ more"
    using Cons.IH by blast
  then show ?case by (cases "h \<in> set acc") (simp_all add: first_insertions_Cons)
qed

lemma first_insertions_set: "set (first_insertions acc hs) = set acc \<union> set hs"
  by (induction hs arbitrary: acc) (auto simp: first_insertions_Nil first_insertions_Cons)

lemma first_insertions_distinct: "distinct (acc @ hs) \<Longrightarrow> first_insertions acc hs = acc @ hs"
  by (induction hs arbitrary: acc) (auto simp: first_insertions_Nil first_insertions_Cons)

lemma pk3_insert_all_inv:
  assumes "pk3_inv pl z acc bss"
  shows "\<exists>pl1 z1 bss1. pk3_list_insert_all pl z hs = Some (pl1, z1) \<and>
           pk3_inv pl1 z1 (first_insertions acc hs) bss1"
  using assms
proof (induction hs arbitrary: pl z acc bss)
  case Nil
  then show ?case by (auto simp: first_insertions_Nil)
next
  case (Cons h hs)
  show ?case
  proof (cases "h \<in> set acc")
    case True
    then have "pk3_list_insert pl z h = Some (pl, z)"
      using pk3_insert_present [OF Cons.prems] by simp
    then show ?thesis
      using Cons.IH [OF Cons.prems] True by (simp add: first_insertions_Cons)
  next
    case False
    from pk3_insert_new [OF Cons.prems False]
    obtain pl1 z1 bss1 where ins: "pk3_list_insert pl z h = Some (pl1, z1)"
      and inv1: "pk3_inv pl1 z1 (acc @ [h]) bss1"
      by blast
    show ?thesis
      using Cons.IH [OF inv1] ins False by (simp add: first_insertions_Cons)
  qed
qed

lemma pk3_built_lookups_return:
  assumes "pk3_list_initialize n = Some pl0" and "0 < next_free z0"
    and "pk3_list_insert_all pl0 z0 hs = Some (pl, z)"
  shows "\<exists>p. pk3_list_lookup pl z hash = Some p"
proof -
  from pk3_insert_all_inv [OF pk3_initialize_inv [OF assms(1,2)], of hs] assms(3)
  obtain bss where "pk3_inv pl z (first_insertions [] hs) bss" by auto
  then show ?thesis by (simp add: pk3_lookup_chain)
qed

text \<open>
  Claim C1.  Take an initialized pk3 list (\<^verbatim>\<open>pk3_list_initialize\<close> has returned, which
  it does for a bucket count from 1 to \<open>2 ^ 31 - 1\<close>) and insert the hashes \<open>hs\<close> in
  sequence (the allocator never hands out the null pointer).  Every call returns, and
  in the resulting list
  \<^item> inserting a hash that is already present changes nothing: the call returns the
    very same list and memory;
  \<^item> if the hashes \<open>hs\<close> are distinct, \<^verbatim>\<open>pk3_list_lookup\<close> returns 1, 2, ..., K for
    them in insertion order;
  \<^item> \<^verbatim>\<open>pk3_list_lookup\<close> returns 0 for every hash that was never inserted;
  \<^item> the position a present hash has is not zero and stays what it is whatever is
    inserted afterwards (first insertion wins).
\<close>

theorem pk3_list_first_insertion_dense:
  assumes "pk3_list_initialize n = Some pl0" and "0 < next_free z0"
  shows "\<exists>pl z.
     pk3_list_insert_all pl0 z0 hs = Some (pl, z) \<and>
     (\<forall>h \<in> set hs. pk3_list_insert pl z h = Some (pl, z)) \<and>
     (distinct hs \<longrightarrow> (\<forall>i < length hs. pk3_list_lookup pl z (hs ! i) = Some (i + 1))) \<and>
     (\<forall>h. h \<notin> set hs \<longrightarrow> pk3_list_lookup pl z h = Some 0) \<and>
     (\<forall>h \<in> set hs. \<forall>more. \<exists>pl1 z1 p.
         pk3_list_insert_all pl z more = Some (pl1, z1) \<and> 0 < p \<and>
         pk3_list_lookup pl z h = Some p \<and> pk3_list_lookup pl1 z1 h = Some p)"
proof -
  note inv0 = pk3_initialize_inv [OF assms]
  from pk3_insert_all_inv [OF inv0, of hs]
  obtain pl z bss where run: "pk3_list_insert_all pl0 z0 hs = Some (pl, z)"
    and inv: "pk3_inv pl z (first_insertions [] hs) bss"
    by blast
  let ?fs = "first_insertions [] hs"
  have fs_set: "set ?fs = set hs" by (simp add: first_insertions_set)
  have noop: "pk3_list_insert pl z h = Some (pl, z)" if "h \<in> set hs" for h
    using pk3_insert_present [OF inv] that fs_set by simp
  have dense: "pk3_list_lookup pl z (hs ! i) = Some (i + 1)" if "distinct hs" and "i < length hs" for i
  proof -
    have "?fs = hs" using that(1) first_insertions_distinct [of "[]" hs] by simp
    then show ?thesis using pk3_lookup_present [OF inv, of i] that(2) by simp
  qed
  have absent: "pk3_list_lookup pl z h = Some 0" if "h \<notin> set hs" for h
    using pk3_lookup_absent [OF inv] that fs_set by simp
  have stable: "\<exists>pl1 z1 p. pk3_list_insert_all pl z more = Some (pl1, z1) \<and> 0 < p \<and>
         pk3_list_lookup pl z h = Some p \<and> pk3_list_lookup pl1 z1 h = Some p"
    if "h \<in> set hs" for h more
  proof -
    have "h \<in> set ?fs" using that fs_set by simp
    then obtain k where k: "k < length ?fs" and hk: "?fs ! k = h"
      unfolding in_set_conv_nth by blast
    from pk3_insert_all_inv [OF inv, of more]
    obtain pl1 z1 bss1 where run1: "pk3_list_insert_all pl z more = Some (pl1, z1)"
      and inv1: "pk3_inv pl1 z1 (first_insertions ?fs more) bss1"
      by blast
    obtain ext where ext: "first_insertions ?fs more = ?fs @ ext"
      using first_insertions_extends by blast
    have "pk3_list_lookup pl z h = Some (k + 1)"
      using pk3_lookup_present [OF inv k] hk by simp
    moreover have "pk3_list_lookup pl1 z1 h = Some (k + 1)"
      using pk3_lookup_present [OF inv1, of k] k hk ext by (simp add: nth_append)
    ultimately show ?thesis using run1 by simp
  qed
  show ?thesis
    using run noop dense absent stable by blast
qed

theorem pk3_list_first_insertion_dense_witness:
  "pk3_list_initialize 2 = Some \<lparr>ht = \<lparr>buckets = [0, 0], bucket_count = 2, element_count = 0\<rparr>\<rparr> \<and>
   (\<exists>pl z. pk3_list_insert_all \<lparr>ht = \<lparr>buckets = [0, 0], bucket_count = 2, element_count = 0\<rparr>\<rparr>
             zone_example [10, 11, 12] = Some (pl, z) \<and>
          pk3_list_insert pl z 11 = Some (pl, z) \<and>
          pk3_list_lookup pl z 10 = Some 1 \<and> pk3_list_lookup pl z 11 = Some 2 \<and>
          pk3_list_lookup pl z 12 = Some 3 \<and> pk3_list_lookup pl z 13 = Some 0)"
proof -
  have z: "0 < next_free zone_example" by (simp add: zone_example_def)
  have init: "pk3_list_initialize 2 = Some \<lparr>ht = \<lparr>buckets = [0, 0], bucket_count = 2, element_count = 0\<rparr>\<rparr>"
    by (simp add: pk3_list_initialize_def fs_hashtable_initialize_def numeral_2_eq_2)
  have d: "distinct [10, 11, 12 :: 32 word]" by simp
  from pk3_list_first_insertion_dense [OF init z, of "[10, 11, 12]"]
  obtain pl z where run: "pk3_list_insert_all \<lparr>ht = \<lparr>buckets = [0, 0], bucket_count = 2, element_count = 0\<rparr>\<rparr>
             zone_example [10, 11, 12] = Some (pl, z)"
    and noop: "\<forall>h \<in> set [10, 11, 12]. pk3_list_insert pl z h = Some (pl, z)"
    and dense: "distinct [10, 11, 12 :: 32 word] \<longrightarrow>
        (\<forall>i < length [10, 11, 12 :: 32 word]. pk3_list_lookup pl z ([10, 11, 12] ! i) = Some (i + 1))"
    and absent: "\<forall>h. h \<notin> set [10, 11, 12] \<longrightarrow> pk3_list_lookup pl z h = Some 0"
    by auto
  have "pk3_list_insert pl z 11 = Some (pl, z)" using noop by simp
  moreover have "pk3_list_lookup pl z 10 = Some 1" using dense d by (auto dest: spec [of _ 0])
  moreover have "pk3_list_lookup pl z 11 = Some 2" using dense d by (auto dest: spec [of _ 1])
  moreover have "pk3_list_lookup pl z 12 = Some 3" using dense d by (auto dest: spec [of _ 2])
  moreover have "pk3_list_lookup pl z 13 = Some 0" using absent by simp
  ultimately show ?thesis using run init by blast
qed

subsection \<open>Sort keys\<close>

lemma mask_odd_bytes: "(0xFF00FF00 :: 32 word) = push_bit 8 (mask 8) OR push_bit 24 (mask 8)"
  by (simp add: mask_eq_exp_minus_1)

lemma mask_even_bytes: "(0xFF00FF :: 32 word) = mask 8 OR push_bit 16 (mask 8)"
  by (simp add: mask_eq_exp_minus_1)

lemma sort_value_swap_alt:
  "sort_value_swap v =
     (let v1 = (push_bit 8 v AND (push_bit 8 (mask 8) OR push_bit 24 (mask 8)))
               OR (drop_bit 8 v AND (mask 8 OR push_bit 16 (mask 8)))
      in push_bit 16 v1 OR drop_bit 16 v1)"
  unfolding sort_value_swap_def mask_odd_bytes mask_even_bytes ..

lemma swap_byte0: "(ucast (sort_value_swap v) :: 8 word) = ucast (drop_bit 24 v)"
  unfolding sort_value_swap_alt by (rule bit_word_eqI) (auto simp: Let_def bit_simps)
lemma swap_byte1: "(ucast (drop_bit 8 (sort_value_swap v)) :: 8 word) = ucast (drop_bit 16 v)"
  unfolding sort_value_swap_alt by (rule bit_word_eqI) (auto simp: Let_def bit_simps)
lemma swap_byte2: "(ucast (drop_bit 16 (sort_value_swap v)) :: 8 word) = ucast (drop_bit 8 v)"
  unfolding sort_value_swap_alt by (rule bit_word_eqI) (auto simp: Let_def bit_simps)
lemma swap_byte3: "(ucast (drop_bit 24 (sort_value_swap v)) :: 8 word) = ucast v"
  unfolding sort_value_swap_alt by (rule bit_word_eqI) (auto simp: Let_def bit_simps)

lemma byte_of_word:
  fixes w :: "32 word"
  shows "unat (ucast (drop_bit n w) :: 8 word) = unat w div 2 ^ n mod 256"
  by (simp only: unsigned_ucast_eq unat_drop_bit_eq take_bit_eq_mod) (simp add: drop_bit_eq_div)

lemma nat_digits:
  fixes A :: nat
  shows "A = A div 16777216 * 16777216 + A div 65536 mod 256 * 65536
      + A div 256 mod 256 * 256 + A mod 256"
proof -
  have 1: "A = A div 256 * 256 + A mod 256" by simp
  have "A div 256 div 256 = A div 65536" by (simp add: div_mult2_eq [symmetric])
  then have 2: "A div 256 = A div 65536 * 256 + A div 256 mod 256"
    using div_mult_mod_eq [of "A div 256" 256] by simp
  have "A div 65536 div 256 = A div 16777216" by (simp add: div_mult2_eq [symmetric])
  then have 3: "A div 65536 = A div 16777216 * 256 + A div 65536 mod 256"
    using div_mult_mod_eq [of "A div 65536" 256] by simp
  show ?thesis
    using 1 2 3 by linarith
qed

lemma word_digits:
  fixes w :: "32 word"
  shows "unat w = unat (ucast (drop_bit 24 w) :: 8 word) * 16777216 + unat (ucast (drop_bit 16 w) :: 8 word) * 65536
      + unat (ucast (drop_bit 8 w) :: 8 word) * 256 + unat (ucast (drop_bit 0 w) :: 8 word)"
proof -
  have "unat w < 4294967296" using unsigned_less [of w, where 'a = nat] by simp
  then have "unat w div 16777216 < 256" by simp
  then have top: "unat w div 16777216 mod 256 = unat w div 16777216" by simp
  have "unat w = unat w div 16777216 mod 256 * 16777216 + unat w div 65536 mod 256 * 65536
      + unat w div 256 mod 256 * 256 + unat w mod 256"
    unfolding top by (rule nat_digits)
  moreover have "(2::nat) ^ 24 = 16777216" "(2::nat) ^ 16 = 65536" "(2::nat) ^ 8 = 256" by simp_all
  ultimately show ?thesis
    unfolding byte_of_word by (simp only: power_0 div_by_1)
qed

lemma digits_lex_less:
  fixes a3 :: nat
  assumes "a3 * 16777216 + a2 * 65536 + a1 * 256 + a0 < swap_byte3 * 16777216 + swap_byte2 * 65536 + swap_byte1 * 256 + swap_byte0"
   and "a2 < 256" "a1 < 256" "a0 < 256" "swap_byte2 < 256" "swap_byte1 < 256" "swap_byte0 < 256"
  shows "a3 < swap_byte3 \<or> (a3 = swap_byte3 \<and> (a2 < swap_byte2 \<or> (a2 = swap_byte2 \<and> (a1 < swap_byte1 \<or> (a1 = swap_byte1 \<and> a0 < swap_byte0)))))"
  using assms by arith


lemma sort_table_ranges_zero: "sort_table_ranges (replicate 256 0) = (sort_table_letters_digits, 214)"
  by code_simp

lemma sort_table_ranges_final: "sort_table_ranges sort_table_final = (sort_table_final, 214)"
  by code_simp

lemma fill_unused_letters_digits:
  "rev (fill_unused (rev sort_table_letters_digits) 214) = sort_table_final"
  by code_simp

lemma fill_unused_final: "rev (fill_unused (rev sort_table_final) 214) = sort_table_final"
  by code_simp

lemma set_unused_length: "length (fst (sort_table_set_unused (t, v) i)) = length t"
  by (simp add: sort_table_set_unused_def)

lemma foldl_set_unused_append:
  assumes "\<forall>i \<in> set is. i < length xs"
  shows "foldl sort_table_set_unused (xs @ ys, v) is =
           (fst (foldl sort_table_set_unused (xs, v) is) @ ys,
            snd (foldl sort_table_set_unused (xs, v) is))"
  using assms
proof (induction "is" arbitrary: xs v)
  case Nil
  then show ?case by simp
next
  case (Cons i "is")
  have i: "i < length xs" using Cons.prems by simp
  obtain xs1 v1 where step: "sort_table_set_unused (xs, v) i = (xs1, v1)"
    by (cases "sort_table_set_unused (xs, v) i")
  have len: "length xs1 = length xs"
    using set_unused_length [of xs v i] step by simp
  have step2: "sort_table_set_unused (xs @ ys, v) i = (xs1 @ ys, v1)"
    using step i
    by (auto simp: sort_table_set_unused_def nth_append list_update_append1 split: if_splits)
  have "\<forall>j \<in> set is. j < length xs1" using Cons.prems len by simp
  from Cons.IH [OF this, of v1] show ?case by (simp add: step step2)
qed

lemma foldl_set_unused_fill:
  "fst (foldl sort_table_set_unused (t, v) (rev [0..<length t])) = rev (fill_unused (rev t) v)"
proof (induction t arbitrary: v rule: rev_induct)
  case Nil
  then show ?case by simp
next
  case (snoc x xs)
  let ?x1 = "if x = 0 then v else x"
  let ?v1 = "if x = 0 then v - 1 else v"
  have step: "sort_table_set_unused (xs @ [x], v) (length xs) = (xs @ [?x1], ?v1)"
    by (simp add: sort_table_set_unused_def)
  have below: "\<forall>i \<in> set (rev [0..<length xs]). i < length xs" by simp
  have "fst (foldl sort_table_set_unused (xs @ [x], v) (rev [0..<length (xs @ [x])]))
      = fst (foldl sort_table_set_unused (xs @ [?x1], ?v1) (rev [0..<length xs]))"
    by (simp add: step)
  also have "\<dots> = fst (foldl sort_table_set_unused (xs, ?v1) (rev [0..<length xs])) @ [?x1]"
    by (simp only: foldl_set_unused_append [OF below] fst_conv)
  also have "\<dots> = rev (fill_unused (rev xs) ?v1) @ [?x1]"
    by (simp only: snoc.IH)
  also have "\<dots> = rev (fill_unused (rev (xs @ [x])) v)"
    by simp
  finally show ?case .
qed

lemma sort_table_letters_digits_length: "length sort_table_letters_digits = 256"
  by (simp add: sort_table_letters_digits_def)

lemma sort_table_final_length: "length sort_table_final = 256"
  by (simp add: sort_table_final_def)

lemma down_from_255: "down_from 255 0 = rev [0..<256]"
  by (simp add: down_from_def)

lemma string_sort_table_eq: "string_sort_table = sort_table_final"
proof -
  have "string_sort_table =
      fst (foldl sort_table_set_unused (sort_table_letters_digits, 214) (rev [0..<length sort_table_letters_digits]))"
    by (simp only: string_sort_table_def sort_table_fill_def sort_table_ranges_zero down_from_255
        sort_table_letters_digits_length)
  also have "\<dots> = sort_table_final"
    by (simp only: foldl_set_unused_fill fill_unused_letters_digits)
  finally show ?thesis .
qed

lemma sort_table_fill_again: "sort_table_fill string_sort_table = string_sort_table"
proof -
  have "sort_table_fill sort_table_final =
      fst (foldl sort_table_set_unused (sort_table_final, 214) (rev [0..<length sort_table_final]))"
    by (simp only: sort_table_fill_def sort_table_ranges_final down_from_255 sort_table_final_length)
  also have "\<dots> = sort_table_final"
    by (simp only: foldl_set_unused_fill fill_unused_final)
  finally show ?thesis by (simp only: string_sort_table_eq)
qed

lemma sort_table_final_bounds: "list_all (\<lambda>x. 0 < x \<and> x < 255) sort_table_final"
  by code_simp

lemma of_char_less_256: "of_char c < (256 :: nat)"
  using of_char_mod_256 [of c, where 'a = nat]
  by (metis mod_less_divisor zero_less_numeral)

lemma string_sort_table_bounds:
  "0 < string_sort_table ! of_char c \<and> string_sort_table ! of_char c < 255"
proof -
  have "of_char c < length sort_table_final"
    using of_char_less_256 [of c] by (simp only: sort_table_final_length)
  then show ?thesis
    using sort_table_final_bounds
    by (simp only: string_sort_table_eq list_all_length)
qed


lemma update_take_drop:
  "p < length d \<Longrightarrow> take (Suc p) (d[p := x]) = take p d @ [x] \<and> drop (Suc p + n) (d[p := x]) = drop (Suc p + n) d"
  by (simp add: take_Suc_conv_app_nth)

lemma write_loop_room:
  assumes "CHR 0x00 \<notin> set cs" and "position out + length cs \<le> stream_size out"
    and "length (data out) = stream_size out"
  shows "fs_write_sort_string_loop cs out =
           out\<lparr>data := take (position out) (data out) @ collated cs @ drop (position out + length cs) (data out),
                position := position out + length cs\<rparr>"
  using assms
proof (induction cs arbitrary: out)
  case Nil
  then show ?case by (simp add: collated_def)
next
  case (Cons c cs)
  let ?p = "position out"
  let ?x = "string_sort_table ! of_char c"
  let ?out1 = "out\<lparr>data := (data out)[?p := ?x], position := ?p + 1\<rparr>"
  have c: "c \<noteq> CHR 0x00" and cs: "CHR 0x00 \<notin> set cs" using Cons.prems(1) by auto
  have p: "?p < length (data out)" using Cons.prems(2,3) by simp
  have "fs_write_sort_string_loop (c # cs) out = fs_write_sort_string_loop cs ?out1"
    using c p Cons.prems(3) by simp
  also have "\<dots> = ?out1\<lparr>data := take (position ?out1) (data ?out1) @ collated cs
                               @ drop (position ?out1 + length cs) (data ?out1),
                          position := position ?out1 + length cs\<rparr>"
    using cs Cons.prems(2,3) by (intro Cons.IH) simp_all
  also have "\<dots> = out\<lparr>data := take ?p (data out) @ collated (c # cs) @ drop (?p + length (c # cs)) (data out),
                position := ?p + length (c # cs)\<rparr>"
    using update_take_drop [OF p, of ?x "length cs"] by (simp add: collated_def)
  finally show ?case .
qed

lemma write_string_room:
  assumes "CHR 0x00 \<notin> set cs" and "position out + length cs < stream_size out"
    and "length (data out) = stream_size out"
  shows "fs_write_sort_string cs out prioritize_shorter =
           out\<lparr>data := take (position out) (data out) @ collated cs @ [if prioritize_shorter then 255 else 0]
                         @ drop (position out + length cs + 1) (data out),
                position := position out + length cs + 1\<rparr>"
proof -
  let ?p = "position out"
  let ?n = "length cs"
  let ?t = "if prioritize_shorter then 255 else 0 :: 8 word"
  let ?d1 = "take ?p (data out) @ collated cs @ drop (?p + ?n) (data out)"
  have loop: "fs_write_sort_string_loop cs out = out\<lparr>data := ?d1, position := ?p + ?n\<rparr>"
    using assms by (intro write_loop_room) simp_all
  have l1: "length (take ?p (data out) @ collated cs) = ?p + ?n"
    using assms by (simp add: collated_def)
  have "?d1[?p + ?n := ?t] = take ?p (data out) @ collated cs @ (drop (?p + ?n) (data out))[0 := ?t]"
    using l1 by (metis (no_types, lifting) add.right_neutral append.assoc list_update_length
        list_update_append nat_neq_iff not_add_less1 diff_self_eq_0)
  moreover have "(drop (?p + ?n) (data out))[0 := ?t] = ?t # drop (?p + ?n + 1) (data out)"
    using assms by (cases "drop (?p + ?n) (data out)") (simp_all add: drop_Suc drop_tl)
  ultimately have "?d1[?p + ?n := ?t] = take ?p (data out) @ collated cs @ [?t] @ drop (?p + ?n + 1) (data out)"
    by simp
  then show ?thesis
    using assms loop by (simp add: fs_write_sort_string_def Let_def)
qed

lemma written_string_room:
  assumes "CHR 0x00 \<notin> set cs" and "position out + length cs < stream_size out"
    and "length (data out) = stream_size out"
  shows "stream_written out (fs_write_sort_string cs out prioritize_shorter)
           = collated cs @ [if prioritize_shorter then 255 else 0]"
proof -
  have "length (take (position out) (data out)) = position out"
    using assms by simp
  then show ?thesis
    unfolding write_string_room [OF assms] stream_written_def
    by (simp add: collated_def)
qed

lemma append_less_append: "xs @ ys < xs @ zs \<longleftrightarrow> ys < (zs :: 'a :: order list)"
  by (induction xs) simp_all


lemma host_bytes_swapped:
  "host_bytes little_endian
     (if hd (host_bytes little_endian 1) \<noteq> 0 then sort_value_swap v else v) = big_endian_bytes v"
proof (cases little_endian)
  case True
  have "hd (host_bytes True 1) \<noteq> 0" by (simp add: host_bytes_def)
  then show ?thesis
    using True swap_byte0 [of v] swap_byte1 [of v] swap_byte2 [of v] swap_byte3 [of v]
    by (simp add: host_bytes_def big_endian_bytes_def)
next
  case False
  have "hd (host_bytes False 1) = 0" by (simp add: host_bytes_def drop_bit_eq_div)
  then show ?thesis using False by (simp add: host_bytes_def big_endian_bytes_def)
qed

lemma store_bytes_room:
  "p + length bs \<le> length d \<Longrightarrow> store_bytes d p bs = take p d @ bs @ drop (p + length bs) d"
proof (induction bs arbitrary: d p)
  case Nil
  then show ?case by simp
next
  case (Cons b bs)
  have p: "p < length d" using Cons.prems by simp
  have "store_bytes (d[p := b]) (p + 1) bs
      = take (p + 1) (d[p := b]) @ bs @ drop (p + 1 + length bs) (d[p := b])"
    using Cons.prems by (intro Cons.IH) simp
  then show ?case
    using update_take_drop [OF p, of b "length bs"] by simp
qed

lemma big_endian_order:
  assumes "a < b"
  shows "big_endian_bytes a < big_endian_bytes b"
proof -
  let ?a3 = "unat (ucast (drop_bit 24 a) :: 8 word)" and ?a2 = "unat (ucast (drop_bit 16 a) :: 8 word)"
    and ?a1 = "unat (ucast (drop_bit 8 a) :: 8 word)" and ?a0 = "unat (ucast (drop_bit 0 a) :: 8 word)"
  let ?swap_byte3 = "unat (ucast (drop_bit 24 b) :: 8 word)" and ?swap_byte2 = "unat (ucast (drop_bit 16 b) :: 8 word)"
    and ?swap_byte1 = "unat (ucast (drop_bit 8 b) :: 8 word)" and ?swap_byte0 = "unat (ucast (drop_bit 0 b) :: 8 word)"
  have lt: "unat a < unat b" using assms by (simp add: word_less_nat_alt)
  have bound: "unat (w :: 8 word) < 256" for w
    using unsigned_less [of w, where 'a = nat] by simp
  have "?a3 * 16777216 + ?a2 * 65536 + ?a1 * 256 + ?a0 < ?swap_byte3 * 16777216 + ?swap_byte2 * 65536 + ?swap_byte1 * 256 + ?swap_byte0"
    using lt word_digits [of a] word_digits [of b] by simp
  then have "?a3 < ?swap_byte3 \<or> (?a3 = ?swap_byte3 \<and> (?a2 < ?swap_byte2 \<or> (?a2 = ?swap_byte2 \<and> (?a1 < ?swap_byte1 \<or> (?a1 = ?swap_byte1 \<and> ?a0 < ?swap_byte0)))))"
    by (intro digits_lex_less) (simp_all only: bound)
  then show ?thesis
    by (simp add: big_endian_bytes_def word_less_nat_alt word_unat_eq_iff)
qed

text \<open>
  Claim C2, as amended.  On a stream that is consistent (the buffer has \<open>stream_size\<close>
  bytes, the position is within it, and the size is small enough for \<open>position + 3\<close> not
  to wrap):
  \<^item> if the stream has room for four more bytes (\<open>position + 3 < stream_size\<close>),
    \<^verbatim>\<open>fs_write_sort_value\<close> appends exactly four bytes, the value's bytes in big-endian
    order, whatever the byte order of the host, and leaves the bytes before them as
    they were; hence for all values \<open>a < b\<close> the field written for \<open>a\<close> is strictly
    below the field written for \<open>b\<close> in the unsigned byte-wise lexicographic order;
  \<^item> if it has not, the call changes nothing: no byte is appended.
\<close>

theorem fs_write_sort_value_big_endian:
  assumes "length (data out) = stream_size out" and "position out \<le> stream_size out"
    and "stream_size out + 3 < 2 ^ 32"
  shows "(position out + 3 < stream_size out \<longrightarrow>
            position (fs_write_sort_value little_endian v out) = position out + 4 \<and>
            stream_written out (fs_write_sort_value little_endian v out) = big_endian_bytes v \<and>
            take (position out) (data (fs_write_sort_value little_endian v out)) = take (position out) (data out) \<and>
            (\<forall>a b le1 le2. a < b \<longrightarrow>
               stream_written out (fs_write_sort_value le1 a out)
                 < stream_written out (fs_write_sort_value le2 b out))) \<and>
         (\<not> position out + 3 < stream_size out \<longrightarrow> fs_write_sort_value little_endian v out = out)"
proof -
  have nowrap: "(position out + 3) mod 2 ^ 32 = position out + 3"
    and nowrap4: "position out + 3 < stream_size out \<Longrightarrow> (position out + 4) mod 2 ^ 32 = position out + 4"
    using assms(2,3) by simp_all
  have full: "fs_write_sort_value le w out = out" if "\<not> position out + 3 < stream_size out" for le w
    using that nowrap by (simp add: fs_write_sort_value_def Let_def)
  have room: "fs_write_sort_value le w out =
      out\<lparr>data := take (position out) (data out) @ big_endian_bytes w @ drop (position out + 4) (data out),
          position := position out + 4\<rparr>"
    if r: "position out + 3 < stream_size out" for le w
  proof -
    have "length (big_endian_bytes w) = 4" by (simp add: big_endian_bytes_def)
    then have "store_bytes (data out) (position out) (big_endian_bytes w)
        = take (position out) (data out) @ big_endian_bytes w @ drop (position out + 4) (data out)"
      using r assms(1) store_bytes_room [of "position out" "big_endian_bytes w" "data out"] by simp
    then show ?thesis
      using r nowrap nowrap4 [OF r] host_bytes_swapped [of le w]
      by (simp add: fs_write_sort_value_def Let_def)
  qed
  have written: "stream_written out (fs_write_sort_value le w out) = big_endian_bytes w"
    if r: "position out + 3 < stream_size out" for le w
  proof -
    have "length (take (position out) (data out)) = position out" using assms(1,2) by simp
    then show ?thesis
      unfolding room [OF r] stream_written_def by (simp add: big_endian_bytes_def)
  qed
  have kept: "take (position out) (data (fs_write_sort_value le w out)) = take (position out) (data out)"
    if r: "position out + 3 < stream_size out" for le w
    unfolding room [OF r] using assms(1,2) by simp
  show ?thesis
    using room written kept full big_endian_order by simp
qed


theorem fs_write_sort_value_big_endian_witness:
  "stream_written (empty_stream 8) (fs_write_sort_value True 0x01020304 (empty_stream 8)) = [1, 2, 3, 4] \<and>
   stream_written (empty_stream 8) (fs_write_sort_value False 0x01020304 (empty_stream 8)) = [1, 2, 3, 4] \<and>
   position (fs_write_sort_value True 0x01020304 (empty_stream 8)) = 4 \<and>
   stream_written (empty_stream 8) (fs_write_sort_value True 255 (empty_stream 8))
     < stream_written (empty_stream 8) (fs_write_sort_value False 256 (empty_stream 8))"
proof -
  have a: "length (data (empty_stream 8)) = stream_size (empty_stream 8)"
    and b: "position (empty_stream 8) \<le> stream_size (empty_stream 8)"
    and c: "stream_size (empty_stream 8) + 3 < 2 ^ 32"
    and r: "position (empty_stream 8) + 3 < stream_size (empty_stream 8)"
    by (simp_all add: empty_stream_def)
  have v: "big_endian_bytes 0x01020304 = [1, 2, 3, 4]"
    by (simp add: big_endian_bytes_def drop_bit_eq_div)
  have lt: "(255 :: 32 word) < 256" by simp
  show ?thesis
    using fs_write_sort_value_big_endian [OF a b c, of True "0x01020304"]
      fs_write_sort_value_big_endian [OF a b c, of False "0x01020304"] r v lt
    by (simp add: empty_stream_def)
qed

text \<open>
  The claim as stated, that exactly four bytes are always appended, fails on a stream
  with fewer than four bytes left: nothing is appended, on either kind of host, and the
  fields written for 1 and for 2 are then both empty.
\<close>

theorem fs_write_sort_value_full_stream:
  "stream_written (empty_stream 3) (fs_write_sort_value True 0x01020304 (empty_stream 3)) = [] \<and>
   fs_write_sort_value True 0x01020304 (empty_stream 3) = empty_stream 3 \<and>
   fs_write_sort_value False 0x01020304 (empty_stream 3) = empty_stream 3 \<and>
   \<not> stream_written (empty_stream 3) (fs_write_sort_value True 1 (empty_stream 3))
       < stream_written (empty_stream 3) (fs_write_sort_value True 2 (empty_stream 3))"
  by (simp add: fs_write_sort_value_def empty_stream_def stream_written_def Let_def)

lemma collated_lower:
  "collated ''abcdefghijklmnopqrstuvwxyz'' =
     [225, 226, 227, 228, 229, 230, 231, 232, 233, 234, 235, 236, 237,
      238, 239, 240, 241, 242, 243, 244, 245, 246, 247, 248, 249, 250]"
  by (simp add: collated_def string_sort_table_eq sort_table_final_def)

lemma collated_upper:
  "collated ''ABCDEFGHIJKLMNOPQRSTUVWXYZ'' =
     [225, 226, 227, 228, 229, 230, 231, 232, 233, 234, 235, 236, 237,
      238, 239, 240, 241, 242, 243, 244, 245, 246, 247, 248, 249, 250]"
  by (simp add: collated_def string_sort_table_eq sort_table_final_def)

lemma collated_digits:
  "collated ''0123456789'' = [215, 216, 217, 218, 219, 220, 221, 222, 223, 224]"
  by (simp add: collated_def string_sort_table_eq sort_table_final_def)

lemma collated_Abc: "collated ''Abc'' = [225, 226, 227]"
  by (simp add: collated_def string_sort_table_eq sort_table_final_def)

lemma collated_abd: "collated ''abd'' = [225, 226, 228]"
  by (simp add: collated_def string_sort_table_eq sort_table_final_def)

text \<open>
  Claim C4, as amended.  The table maps the lowercase letters, contiguously and in
  order, to the ranks 225 to 250, and the uppercase letters to the very same ranks (a
  letter has one rank in both cases, not two adjacent ones); the digits form the
  contiguous range 215 to 224 below them.  On any stream with room for them, the keys
  written for "Abc" and "abd" agree in their first two bytes and differ in the third,
  where 'c' ranks below 'd'.  So the key of "Abc" is the smaller one byte-wise, and since
  the higher value has the higher precedence it is "abd" that sorts before "Abc".
\<close>

theorem string_sort_table_collation:
  assumes "length (data out) = stream_size out" and "position out + 3 < stream_size out"
  shows "collated ''abcdefghijklmnopqrstuvwxyz'' =
           [225, 226, 227, 228, 229, 230, 231, 232, 233, 234, 235, 236, 237,
            238, 239, 240, 241, 242, 243, 244, 245, 246, 247, 248, 249, 250] \<and>
         collated ''ABCDEFGHIJKLMNOPQRSTUVWXYZ'' = collated ''abcdefghijklmnopqrstuvwxyz'' \<and>
         collated ''0123456789'' = [215, 216, 217, 218, 219, 220, 221, 222, 223, 224] \<and>
         stream_written out (fs_write_sort_string ''Abc'' out False) = [225, 226, 227, 0] \<and>
         stream_written out (fs_write_sort_string ''abd'' out False) = [225, 226, 228, 0] \<and>
         stream_written out (fs_write_sort_string ''Abc'' out False)
           < stream_written out (fs_write_sort_string ''abd'' out False) \<and>
         sorts_before (stream_written out (fs_write_sort_string ''abd'' out False))
           (stream_written out (fs_write_sort_string ''Abc'' out False))"
proof -
  have k1: "stream_written out (fs_write_sort_string ''Abc'' out False) = [225, 226, 227, 0]"
    using written_string_room [of "''Abc''" out False] assms by (simp add: collated_Abc)
  have k2: "stream_written out (fs_write_sort_string ''abd'' out False) = [225, 226, 228, 0]"
    using written_string_room [of "''abd''" out False] assms by (simp add: collated_abd)
  show ?thesis
    unfolding k1 k2 sorts_before_def
    by (simp add: collated_lower collated_upper collated_digits)
qed

theorem string_sort_table_collation_witness:
  "stream_written (empty_stream 8) (fs_write_sort_string ''Abc'' (empty_stream 8) False) = [225, 226, 227, 0] \<and>
   stream_written (empty_stream 8) (fs_write_sort_string ''abd'' (empty_stream 8) False) = [225, 226, 228, 0] \<and>
   sorts_before (stream_written (empty_stream 8) (fs_write_sort_string ''abd'' (empty_stream 8) False))
     (stream_written (empty_stream 8) (fs_write_sort_string ''Abc'' (empty_stream 8) False))"
proof -
  have a: "length (data (empty_stream 8)) = stream_size (empty_stream 8)"
    and r: "position (empty_stream 8) + 3 < stream_size (empty_stream 8)"
    by (simp_all add: empty_stream_def)
  show ?thesis
    using string_sort_table_collation [OF a r] by (simp add: sorts_before_def)
qed

text \<open>
  The claim as stated fails: "Abc" does not sort before "abd", and 'A' and 'a' have the
  same rank.
\<close>

theorem string_sort_Abc_not_before_abd:
  "\<not> sorts_before (stream_written (empty_stream 8) (fs_write_sort_string ''Abc'' (empty_stream 8) False))
       (stream_written (empty_stream 8) (fs_write_sort_string ''abd'' (empty_stream 8) False)) \<and>
   string_sort_table ! of_char CHR ''A'' = string_sort_table ! of_char CHR ''a''"
proof -
  have a: "length (data (empty_stream 8)) = stream_size (empty_stream 8)"
    and r1: "position (empty_stream 8) + length ''Abc'' < stream_size (empty_stream 8)"
    and r2: "position (empty_stream 8) + length ''abd'' < stream_size (empty_stream 8)"
    by (simp_all add: empty_stream_def)
  have k1: "stream_written (empty_stream 8) (fs_write_sort_string ''Abc'' (empty_stream 8) False) = [225, 226, 227, 0]"
    using written_string_room [OF _ r1 a, of False] by (simp add: collated_Abc)
  have k2: "stream_written (empty_stream 8) (fs_write_sort_string ''abd'' (empty_stream 8) False) = [225, 226, 228, 0]"
    using written_string_room [OF _ r2 a, of False] by (simp add: collated_abd)
  have "string_sort_table ! of_char CHR ''A'' = string_sort_table ! of_char CHR ''a''"
    by (simp add: string_sort_table_eq sort_table_final_def)
  then show ?thesis
    unfolding k1 k2 sorts_before_def by simp
qed

text \<open>
  Claim C5, as amended.  Let \<open>s\<close> be a strict prefix of the C string \<open>t\<close>, and let each
  be written to a stream that has room for the whole key, the collated characters and
  one more byte.  Then \<^verbatim>\<open>fs_write_sort_string\<close> appends the collated characters and
  after them a terminator byte, 0x00 when \<^verbatim>\<open>prioritize_shorter\<close> is false and 0xFF when
  it is true; so the key for \<open>s\<close> sorts after the key for \<open>t\<close> under the default
  termination, and before it when \<^verbatim>\<open>prioritize_shorter\<close> is set.
\<close>

theorem fs_write_sort_string_terminator:
  assumes "CHR 0x00 \<notin> set t" and "t = s @ c # rest"
    and "length (data out1) = stream_size out1" and "position out1 + length s < stream_size out1"
    and "length (data out2) = stream_size out2" and "position out2 + length t < stream_size out2"
  shows "stream_written out1 (fs_write_sort_string s out1 False) = collated s @ [0] \<and>
         stream_written out1 (fs_write_sort_string s out1 True) = collated s @ [255] \<and>
         stream_written out2 (fs_write_sort_string t out2 False) = collated t @ [0] \<and>
         stream_written out2 (fs_write_sort_string t out2 True) = collated t @ [255] \<and>
         sorts_before (stream_written out2 (fs_write_sort_string t out2 False))
           (stream_written out1 (fs_write_sort_string s out1 False)) \<and>
         sorts_before (stream_written out1 (fs_write_sort_string s out1 True))
           (stream_written out2 (fs_write_sort_string t out2 True))"
proof -
  have s0: "CHR 0x00 \<notin> set s" using assms(1,2) by simp
  have ks: "stream_written out1 (fs_write_sort_string s out1 p) = collated s @ [if p then 255 else 0]" for p
    by (rule written_string_room [OF s0 assms(4,3)])
  have kt: "stream_written out2 (fs_write_sort_string t out2 p) = collated t @ [if p then 255 else 0]" for p
    by (rule written_string_room [OF assms(1,6,5)])
  have ct: "collated t = collated s @ (string_sort_table ! of_char c) # collated rest"
    using assms(2) by (simp add: collated_def)
  have lo: "[0] < (string_sort_table ! of_char c) # collated rest @ [0]"
    using string_sort_table_bounds [of c] by simp
  have hi: "(string_sort_table ! of_char c) # collated rest @ [255] < [255]"
    using string_sort_table_bounds [of c] by simp
  have "collated s @ [0] < collated t @ [0]"
    unfolding ct using lo by (simp add: append_less_append)
  moreover have "collated t @ [255] < collated s @ [255]"
    unfolding ct using hi by (simp add: append_less_append)
  ultimately show ?thesis
    using ks [of False] ks [of True] kt [of False] kt [of True]
    by (simp add: sorts_before_def)
qed

theorem fs_write_sort_string_terminator_witness:
  "stream_written (empty_stream 8) (fs_write_sort_string ''ab'' (empty_stream 8) False) = [225, 226, 0] \<and>
   stream_written (empty_stream 8) (fs_write_sort_string ''ab'' (empty_stream 8) True) = [225, 226, 255] \<and>
   sorts_before (stream_written (empty_stream 8) (fs_write_sort_string ''abc'' (empty_stream 8) False))
     (stream_written (empty_stream 8) (fs_write_sort_string ''ab'' (empty_stream 8) False)) \<and>
   sorts_before (stream_written (empty_stream 8) (fs_write_sort_string ''ab'' (empty_stream 8) True))
     (stream_written (empty_stream 8) (fs_write_sort_string ''abc'' (empty_stream 8) True))"
proof -
  have n: "CHR 0x00 \<notin> set ''abc''" and t: "''abc'' = ''ab'' @ CHR ''c'' # []" by simp_all
  have a: "length (data (empty_stream 8)) = stream_size (empty_stream 8)"
    and r1: "position (empty_stream 8) + length ''ab'' < stream_size (empty_stream 8)"
    and r2: "position (empty_stream 8) + length ''abc'' < stream_size (empty_stream 8)"
    by (simp_all add: empty_stream_def)
  have c: "collated ''ab'' = [225, 226]" and c3: "collated ''abc'' = [225, 226, 227]"
    by (simp_all add: collated_def string_sort_table_eq sort_table_final_def)
  show ?thesis
    using fs_write_sort_string_terminator [OF n t a r1 a r2] by (simp add: c c3 sorts_before_def)
qed

text \<open>
  The claim as stated fails on a stream that the collated characters fill: no terminator
  is appended, the keys written for "ab" and for "abc" into two bytes are the same, and
  neither sorts before the other.
\<close>

theorem fs_write_sort_string_full_stream:
  "stream_written (empty_stream 2) (fs_write_sort_string ''ab'' (empty_stream 2) False) = [225, 226] \<and>
   stream_written (empty_stream 2) (fs_write_sort_string ''ab'' (empty_stream 2) True) = [225, 226] \<and>
   \<not> sorts_before (stream_written (empty_stream 2) (fs_write_sort_string ''abc'' (empty_stream 2) False))
       (stream_written (empty_stream 2) (fs_write_sort_string ''ab'' (empty_stream 2) False)) \<and>
   \<not> sorts_before (stream_written (empty_stream 2) (fs_write_sort_string ''ab'' (empty_stream 2) True))
       (stream_written (empty_stream 2) (fs_write_sort_string ''abc'' (empty_stream 2) True))"
proof -
  have a: "string_sort_table ! 97 = 225" and b: "string_sort_table ! 98 = 226"
    by (simp_all add: string_sort_table_eq sort_table_final_def)
  have r: "replicate 2 (0 :: 8 word) = [0, 0]" by (simp add: numeral_2_eq_2)
  show ?thesis
    by (simp add: fs_write_sort_string_def empty_stream_def stream_written_def sorts_before_def Let_def a b r)
qed

subsection \<open>File disabled check\<close>

lemma frompk3_base_file:
  "sourcetype file = FSC_SOURCETYPE_PK3 \<Longrightarrow> \<exists>base_file. fsc_get_base_file file = Some base_file"
  by (cases "file") simp_all

text \<open>
  A pure list that \<^verbatim>\<open>pk3_list_initialize\<close> and \<^verbatim>\<open>pk3_list_insert\<close> have built is one in
  which every lookup returns.
\<close>

lemma pure_list_built_lookups_return:
  assumes "pk3_list_initialize n = Some pl0" and "0 < next_free z0"
    and "pk3_list_insert_all pl0 z0 hs = Some (connected_server_pure_list st, zone_memory st)"
  shows "pure_list_lookups_return st"
  unfolding pure_list_lookups_return_def
  using pk3_built_lookups_return [OF assms] by auto

lemma get_pk3_list_position_returns:
  assumes "pure_list_lookups_return st"
  shows "\<exists>p. get_pk3_list_position st file = Some p"
proof (cases "sourcetype file = FSC_SOURCETYPE_PK3")
  case True
  then obtain base_file where "fsc_get_base_file file = Some base_file"
    using frompk3_base_file by blast
  then show ?thesis
    using assms True by (auto simp: get_pk3_list_position_def pure_list_lookups_return_def)
next
  case False
  then show ?thesis by (simp add: get_pk3_list_position_def)
qed

lemma pure_list_blocks_returns:
  assumes "pure_list_lookups_return st"
  shows "\<exists>b. pure_list_blocks st file = Some b"
  using get_pk3_list_position_returns [OF assms, of "file"]
  by (auto simp: pure_list_blocks_def)

lemma inactive_mod_file_disabled_returns:
  assumes "pure_list_lookups_return st"
  shows "\<exists>b. inactive_mod_file_disabled c st file level ignore_servercfg = Some b"
proof (cases "fsc_get_base_file file")
  case None
  then show ?thesis by (auto simp: inactive_mod_file_disabled_def)
next
  case (Some base_file)
  obtain found where
    "pk3_list_lookup (connected_server_pure_list st) (zone_memory st) (pk3_hash base_file) = Some found"
    using assms unfolding pure_list_lookups_return_def by blast
  then show ?thesis using Some by (auto simp: inactive_mod_file_disabled_def)
qed

lemma first_triggered_zero:
  "first_triggered checks xs = 0 \<longleftrightarrow>
     (\<forall>(ident, triggers) \<in> set xs. \<not> (checks AND ident \<noteq> 0 \<and> triggers = Some True))"
proof (induction xs)
  case Nil
  then show ?case by simp
next
  case (Cons x xs)
  obtain ident triggers where x: "x = (ident, triggers)" by (cases x)
  show ?case
  proof (cases "checks AND ident \<noteq> 0 \<and> triggers = Some True")
    case True
    then have "ident \<noteq> 0" by auto
    then show ?thesis using True by (simp add: x)
  next
    case False
    then have "first_triggered checks (x # xs) = first_triggered checks xs"
      by (auto simp: x)
    moreover have "(\<forall>(ident, triggers) \<in> set (x # xs). \<not> (checks AND ident \<noteq> 0 \<and> triggers = Some True))
        \<longleftrightarrow> (\<forall>(ident, triggers) \<in> set xs. \<not> (checks AND ident \<noteq> 0 \<and> triggers = Some True))"
      using False by (auto simp: x)
    ultimately show ?thesis using Cons.IH by (simp only:)
  qed
qed

lemma fs_file_disabled_first_triggered:
  assumes "pure_list_lookups_return st"
  shows "fs_file_disabled c st file checks = Some (first_triggered checks (fd_checks c st file))"
proof -
  obtain p where p: "get_pk3_list_position st file = Some p"
    using get_pk3_list_position_returns [OF assms] by blast
  obtain b1 where b1: "inactive_mod_file_disabled c st file (fs_read_inactive_mods st) False = Some b1"
    using inactive_mod_file_disabled_returns [OF assms] by blast
  obtain b2 where b2: "inactive_mod_file_disabled c st file (fs_read_inactive_mods st) True = Some b2"
    using inactive_mod_file_disabled_returns [OF assms] by blast
  obtain b3 where b3: "inactive_mod_file_disabled c st file (list_inactive_mods_level st) False = Some b3"
    using inactive_mod_file_disabled_returns [OF assms] by blast
  let ?r1 = "checks AND FD_CHECK_PURE_LIST c \<noteq> 0"
  let ?r2 = "checks AND FD_CHECK_READ_INACTIVE_MODS c \<noteq> 0"
  let ?r3 = "checks AND FD_CHECK_READ_INACTIVE_MODS_IGNORE_SERVERCFG c \<noteq> 0"
  let ?r4 = "checks AND FD_CHECK_LIST_INACTIVE_MODS c \<noteq> 0"
  let ?r5 = "checks AND FD_CHECK_LIST_SERVERCFG_LIMIT c \<noteq> 0"
  let ?t1 = "connected_server_pure_state st = 1 \<and> p = 0"
  have e1: "(if ?r1 \<and> connected_server_pure_state st = 1
             then (case get_pk3_list_position st file of None \<Rightarrow> None | Some p \<Rightarrow> Some (p = 0))
             else Some False) = Some (?r1 \<and> ?t1)"
    by (simp add: p)
  have e2: "(if ?r2 then inactive_mod_file_disabled c st file (fs_read_inactive_mods st) False
             else Some False) = Some (?r2 \<and> b1)"
    by (simp add: b1)
  have e3: "(if ?r3 then inactive_mod_file_disabled c st file (fs_read_inactive_mods st) True
             else Some False) = Some (?r3 \<and> b2)"
    by (simp add: b2)
  have e4: "(if ?r4 then inactive_mod_file_disabled c st file (list_inactive_mods_level st) False
             else Some False) = Some (?r4 \<and> b3)"
    by (simp add: b3)
  have lhs: "fs_file_disabled c st file checks =
      (if ?r1 \<and> ?t1 then Some (FD_CHECK_PURE_LIST c)
       else if ?r2 \<and> b1 then Some (FD_CHECK_READ_INACTIVE_MODS c)
       else if ?r3 \<and> b2 then Some (FD_CHECK_READ_INACTIVE_MODS_IGNORE_SERVERCFG c)
       else if ?r4 \<and> b3 then Some (FD_CHECK_LIST_INACTIVE_MODS c)
       else if ?r5 \<and> servercfg_list_limited c st file then Some (FD_CHECK_LIST_SERVERCFG_LIMIT c)
       else Some 0)"
    unfolding fs_file_disabled_def e1 e2 e3 e4
    by (simp only: option.case bool.case_eq_if simp_thms)
  have t1: "pure_list_blocks st file = Some ?t1"
    by (simp add: pure_list_blocks_def p)
  have rhs: "first_triggered checks (fd_checks c st file) =
      (if ?r1 \<and> ?t1 then FD_CHECK_PURE_LIST c
       else if ?r2 \<and> b1 then FD_CHECK_READ_INACTIVE_MODS c
       else if ?r3 \<and> b2 then FD_CHECK_READ_INACTIVE_MODS_IGNORE_SERVERCFG c
       else if ?r4 \<and> b3 then FD_CHECK_LIST_INACTIVE_MODS c
       else if ?r5 \<and> servercfg_list_limited c st file then FD_CHECK_LIST_SERVERCFG_LIMIT c
       else 0)"
    unfolding fd_checks_def t1 b1 b2 b3
    by (simp only: first_triggered.simps option.inject simp_thms)
  show ?thesis
    unfolding lhs rhs by (simp only: if_distrib [of Some])
qed


lemma fd_flags_independentD:
  assumes "fd_flags_independent c"
  shows "FD_CHECK_PURE_LIST c \<noteq> 0" "FD_CHECK_READ_INACTIVE_MODS c \<noteq> 0"
    "FD_CHECK_READ_INACTIVE_MODS_IGNORE_SERVERCFG c \<noteq> 0" "FD_CHECK_LIST_INACTIVE_MODS c \<noteq> 0"
    "FD_CHECK_LIST_SERVERCFG_LIMIT c \<noteq> 0"
    "FD_CHECK_PURE_LIST c AND FD_CHECK_READ_INACTIVE_MODS c = 0"
    "FD_CHECK_PURE_LIST c AND FD_CHECK_READ_INACTIVE_MODS_IGNORE_SERVERCFG c = 0"
    "FD_CHECK_PURE_LIST c AND FD_CHECK_LIST_INACTIVE_MODS c = 0"
    "FD_CHECK_PURE_LIST c AND FD_CHECK_LIST_SERVERCFG_LIMIT c = 0"
    "FD_CHECK_READ_INACTIVE_MODS c AND FD_CHECK_READ_INACTIVE_MODS_IGNORE_SERVERCFG c = 0"
    "FD_CHECK_READ_INACTIVE_MODS c AND FD_CHECK_LIST_INACTIVE_MODS c = 0"
    "FD_CHECK_READ_INACTIVE_MODS c AND FD_CHECK_LIST_SERVERCFG_LIMIT c = 0"
    "FD_CHECK_READ_INACTIVE_MODS_IGNORE_SERVERCFG c AND FD_CHECK_LIST_INACTIVE_MODS c = 0"
    "FD_CHECK_READ_INACTIVE_MODS_IGNORE_SERVERCFG c AND FD_CHECK_LIST_SERVERCFG_LIMIT c = 0"
    "FD_CHECK_LIST_INACTIVE_MODS c AND FD_CHECK_LIST_SERVERCFG_LIMIT c = 0"
  using assms by (simp_all add: fd_flags_independent_def)

lemma no_common_bit_neq:
  fixes x y :: "32 word"
  shows "x AND y = 0 \<Longrightarrow> x \<noteq> 0 \<Longrightarrow> x \<noteq> y"
  by auto

text \<open>
  Claim C3.  Let every lookup in the pure list return, and let the five identifiers be
  independent bit flags.  Then for every file and every mask \<open>checks\<close>
  \<^item> \<^verbatim>\<open>fs_file_disabled\<close> returns the identifier of the first check, in the order pure
    list, read inactive mods, read inactive mods ignoring servercfg, list inactive mods,
    servercfg list limit, that is requested in the mask and triggers: it stops at the
    first such check;
  \<^item> it returns 0 if and only if no requested check triggers;
  \<^item> if the pure list check is requested and triggers, the result is
    \<^verbatim>\<open>FD_CHECK_PURE_LIST\<close> and none of the identifiers of the inactive mod checks,
    whether or not one of those is requested and would trigger as well.
\<close>

theorem fs_file_disabled_priority:
  assumes "pure_list_lookups_return st" and "fd_flags_independent c"
  shows "fs_file_disabled c st file checks = Some (first_triggered checks (fd_checks c st file)) \<and>
         (fs_file_disabled c st file checks = Some 0 \<longleftrightarrow>
            (\<forall>(ident, triggers) \<in> set (fd_checks c st file).
                \<not> (checks AND ident \<noteq> 0 \<and> triggers = Some True))) \<and>
         (checks AND FD_CHECK_PURE_LIST c \<noteq> 0 \<and> pure_list_blocks st file = Some True \<longrightarrow>
            fs_file_disabled c st file checks = Some (FD_CHECK_PURE_LIST c) \<and>
            fs_file_disabled c st file checks \<noteq> Some (FD_CHECK_READ_INACTIVE_MODS c) \<and>
            fs_file_disabled c st file checks \<noteq> Some (FD_CHECK_READ_INACTIVE_MODS_IGNORE_SERVERCFG c) \<and>
            fs_file_disabled c st file checks \<noteq> Some (FD_CHECK_LIST_INACTIVE_MODS c))"
proof -
  have first: "fs_file_disabled c st file checks = Some (first_triggered checks (fd_checks c st file))"
    by (rule fs_file_disabled_first_triggered [OF assms(1)])
  have zero: "fs_file_disabled c st file checks = Some 0 \<longleftrightarrow>
            (\<forall>(ident, triggers) \<in> set (fd_checks c st file).
                \<not> (checks AND ident \<noteq> 0 \<and> triggers = Some True))"
    unfolding first by (simp only: option.inject first_triggered_zero)
  have d: "FD_CHECK_PURE_LIST c \<noteq> FD_CHECK_READ_INACTIVE_MODS c"
    "FD_CHECK_PURE_LIST c \<noteq> FD_CHECK_READ_INACTIVE_MODS_IGNORE_SERVERCFG c"
    "FD_CHECK_PURE_LIST c \<noteq> FD_CHECK_LIST_INACTIVE_MODS c"
    using fd_flags_independentD [OF assms(2)] by (simp_all add: no_common_bit_neq)
  have pure: "fs_file_disabled c st file checks = Some (FD_CHECK_PURE_LIST c)"
    if "checks AND FD_CHECK_PURE_LIST c \<noteq> 0" and "pure_list_blocks st file = Some True"
  proof -
    have "first_triggered checks (fd_checks c st file) = FD_CHECK_PURE_LIST c"
      unfolding fd_checks_def using that by simp
    then show ?thesis unfolding first by simp
  qed
  have pure_only: "fs_file_disabled c st file checks \<noteq> Some (FD_CHECK_READ_INACTIVE_MODS c) \<and>
            fs_file_disabled c st file checks \<noteq> Some (FD_CHECK_READ_INACTIVE_MODS_IGNORE_SERVERCFG c) \<and>
            fs_file_disabled c st file checks \<noteq> Some (FD_CHECK_LIST_INACTIVE_MODS c)"
    if "checks AND FD_CHECK_PURE_LIST c \<noteq> 0" and "pure_list_blocks st file = Some True"
    unfolding pure [OF that] using d by simp
  show ?thesis
    using first zero pure pure_only by blast
qed

lemma fs_file_disabled_pure_blocks:
  assumes "checks AND FD_CHECK_PURE_LIST c \<noteq> 0" and "connected_server_pure_state st = 1"
    and "get_pk3_list_position st file = Some 0"
  shows "fs_file_disabled c st file checks = Some (FD_CHECK_PURE_LIST c)"
proof -
  have "(if checks AND FD_CHECK_PURE_LIST c \<noteq> 0 \<and> connected_server_pure_state st = 1
         then (case get_pk3_list_position st file of None \<Rightarrow> None | Some p \<Rightarrow> Some (p = 0))
         else Some False) = Some True"
    using assms by simp
  then show ?thesis
    unfolding fs_file_disabled_def by (simp only: option.case bool.case)
qed

text \<open>
  Claim C10.  When the pure state of the connected server is 1 and the mask requests
  \<^verbatim>\<open>FD_CHECK_PURE_LIST\<close>, \<^verbatim>\<open>fs_file_disabled\<close> returns \<^verbatim>\<open>FD_CHECK_PURE_LIST\<close> for every
  file whose sourcetype is not \<^verbatim>\<open>FSC_SOURCETYPE_PK3\<close>, whatever the pure list holds (no
  assumption is made about it): the pk3 list position of such a file is 0 by definition.
\<close>

theorem fs_file_disabled_non_pk3:
  assumes "connected_server_pure_state st = 1" and "checks AND FD_CHECK_PURE_LIST c \<noteq> 0"
    and "sourcetype file \<noteq> FSC_SOURCETYPE_PK3"
  shows "get_pk3_list_position st file = Some 0 \<and>
         fs_file_disabled c st file checks = Some (FD_CHECK_PURE_LIST c)"
proof -
  have g: "get_pk3_list_position st file = Some 0"
    using assms(3) by (simp add: get_pk3_list_position_def)
  show ?thesis
    using g fs_file_disabled_pure_blocks [OF assms(2,1) g] by simp
qed

lemma inactive_mod_level_mono:
  assumes "level' \<le> level"
    and "inactive_mod_file_disabled c st file level ignore_servercfg = Some True"
  shows "inactive_mod_file_disabled c st file level' ignore_servercfg = Some True"
proof -
  have l2: "\<not> 2 \<le> level"
    and rank: "\<not> modtype_rank MODTYPE_INACTIVE
                < modtype_rank (fs_get_mod_type c st (Some (fsc_get_mod_dir file)))"
    using assms(2) by (auto simp: inactive_mod_file_disabled_def split: if_splits)
  show ?thesis
  proof (cases "level' = 1")
    case True
    then have "level = 1" using assms(1) l2 by simp
    then show ?thesis using assms(2) True by simp
  next
    case False
    have "\<not> servercfg_allows c st file ignore_servercfg"
      using assms(2) l2 rank
      by (cases "level = 1")
         (auto simp: inactive_mod_file_disabled_def split: option.splits if_splits)
    then show ?thesis
      using False assms(1) l2 rank by (simp add: inactive_mod_file_disabled_def)
  qed
qed

lemma fs_file_disabled_list_only:
  assumes "fd_flags_independent c"
  shows "fs_file_disabled c st file (FD_CHECK_LIST_INACTIVE_MODS c) =
           (case inactive_mod_file_disabled c st file (list_inactive_mods_level st) False of
              None \<Rightarrow> None
            | Some True \<Rightarrow> Some (FD_CHECK_LIST_INACTIVE_MODS c)
            | Some False \<Rightarrow> Some 0)"
proof -
  note f = fd_flags_independentD [OF assms]
  have r: "\<not> (FD_CHECK_LIST_INACTIVE_MODS c AND FD_CHECK_PURE_LIST c \<noteq> 0
              \<and> connected_server_pure_state st = 1)"
    "\<not> FD_CHECK_LIST_INACTIVE_MODS c AND FD_CHECK_READ_INACTIVE_MODS c \<noteq> 0"
    "\<not> FD_CHECK_LIST_INACTIVE_MODS c AND FD_CHECK_READ_INACTIVE_MODS_IGNORE_SERVERCFG c \<noteq> 0"
    "FD_CHECK_LIST_INACTIVE_MODS c AND FD_CHECK_LIST_INACTIVE_MODS c \<noteq> 0"
    "\<not> (FD_CHECK_LIST_INACTIVE_MODS c AND FD_CHECK_LIST_SERVERCFG_LIMIT c \<noteq> 0
              \<and> servercfg_list_limited c st file)"
    using f by (simp_all add: and.commute)
  show ?thesis
    unfolding fs_file_disabled_def
    by (simp only: r if_True if_False option.case bool.case simp_thms)
qed

lemma fs_file_disabled_read_only:
  assumes "fd_flags_independent c"
  shows "fs_file_disabled c st file (FD_CHECK_READ_INACTIVE_MODS c) =
           (case inactive_mod_file_disabled c st file (fs_read_inactive_mods st) False of
              None \<Rightarrow> None
            | Some True \<Rightarrow> Some (FD_CHECK_READ_INACTIVE_MODS c)
            | Some False \<Rightarrow> Some 0)"
proof -
  note f = fd_flags_independentD [OF assms]
  have r: "\<not> (FD_CHECK_READ_INACTIVE_MODS c AND FD_CHECK_PURE_LIST c \<noteq> 0
              \<and> connected_server_pure_state st = 1)"
    "FD_CHECK_READ_INACTIVE_MODS c AND FD_CHECK_READ_INACTIVE_MODS c \<noteq> 0"
    "\<not> FD_CHECK_READ_INACTIVE_MODS c AND FD_CHECK_READ_INACTIVE_MODS_IGNORE_SERVERCFG c \<noteq> 0"
    "\<not> FD_CHECK_READ_INACTIVE_MODS c AND FD_CHECK_LIST_INACTIVE_MODS c \<noteq> 0"
    "\<not> (FD_CHECK_READ_INACTIVE_MODS c AND FD_CHECK_LIST_SERVERCFG_LIMIT c \<noteq> 0
              \<and> servercfg_list_limited c st file)"
    using f by (simp_all add: and.commute)
  show ?thesis
    unfolding fs_file_disabled_def
    by (simp only: r if_True if_False option.case bool.case simp_thms)
qed

text \<open>
  Claim C9.  The level at which the branch of \<^verbatim>\<open>FD_CHECK_LIST_INACTIVE_MODS\<close> evaluates
  the inactive mod rule is the minimum of \<^verbatim>\<open>fs_read_inactive_mods\<close> and
  \<^verbatim>\<open>fs_list_inactive_mods\<close>: asked for this check alone, \<^verbatim>\<open>fs_file_disabled\<close> returns
  the identifier exactly when the rule disables the file at that level.  Hence
  \<^item> whenever the read level is the smaller of the two (or equal), the decision for
    listing is the one the read level produces, for the rule and for the two checks;
  \<^item> for any two levels, a file that the read check disables is disabled by the list
    check as well: listing is never more permissive than reading.
\<close>

theorem list_inactive_mods_never_exceeds_read:
  assumes "fd_flags_independent c"
  shows "list_inactive_mods_level st = min (fs_read_inactive_mods st) (fs_list_inactive_mods st) \<and>
         fs_file_disabled c st file (FD_CHECK_LIST_INACTIVE_MODS c) =
           (case inactive_mod_file_disabled c st file
                   (min (fs_read_inactive_mods st) (fs_list_inactive_mods st)) False of
              None \<Rightarrow> None
            | Some True \<Rightarrow> Some (FD_CHECK_LIST_INACTIVE_MODS c)
            | Some False \<Rightarrow> Some 0) \<and>
         (fs_read_inactive_mods st \<le> fs_list_inactive_mods st \<longrightarrow>
            inactive_mod_file_disabled c st file (list_inactive_mods_level st) False =
              inactive_mod_file_disabled c st file (fs_read_inactive_mods st) False \<and>
            (fs_file_disabled c st file (FD_CHECK_LIST_INACTIVE_MODS c) = Some 0 \<longleftrightarrow>
             fs_file_disabled c st file (FD_CHECK_READ_INACTIVE_MODS c) = Some 0) \<and>
            (fs_file_disabled c st file (FD_CHECK_LIST_INACTIVE_MODS c) = Some (FD_CHECK_LIST_INACTIVE_MODS c) \<longleftrightarrow>
             fs_file_disabled c st file (FD_CHECK_READ_INACTIVE_MODS c) = Some (FD_CHECK_READ_INACTIVE_MODS c))) \<and>
         (fs_file_disabled c st file (FD_CHECK_READ_INACTIVE_MODS c) = Some (FD_CHECK_READ_INACTIVE_MODS c) \<longrightarrow>
            fs_file_disabled c st file (FD_CHECK_LIST_INACTIVE_MODS c) = Some (FD_CHECK_LIST_INACTIVE_MODS c))"
proof -
  note f = fd_flags_independentD [OF assms]
  let ?L = "inactive_mod_file_disabled c st file (list_inactive_mods_level st) False"
  let ?R = "inactive_mod_file_disabled c st file (fs_read_inactive_mods st) False"
  have level: "list_inactive_mods_level st = min (fs_read_inactive_mods st) (fs_list_inactive_mods st)"
    by (simp add: list_inactive_mods_level_def min_def)
  have list_only: "fs_file_disabled c st file (FD_CHECK_LIST_INACTIVE_MODS c) =
      (case ?L of None \<Rightarrow> None | Some True \<Rightarrow> Some (FD_CHECK_LIST_INACTIVE_MODS c) | Some False \<Rightarrow> Some 0)"
    by (rule fs_file_disabled_list_only [OF assms])
  have read_only: "fs_file_disabled c st file (FD_CHECK_READ_INACTIVE_MODS c) =
      (case ?R of None \<Rightarrow> None | Some True \<Rightarrow> Some (FD_CHECK_READ_INACTIVE_MODS c) | Some False \<Rightarrow> Some 0)"
    by (rule fs_file_disabled_read_only [OF assms])
  have list_iff: "fs_file_disabled c st file (FD_CHECK_LIST_INACTIVE_MODS c) = Some (FD_CHECK_LIST_INACTIVE_MODS c)
      \<longleftrightarrow> ?L = Some True"
    and list_zero: "fs_file_disabled c st file (FD_CHECK_LIST_INACTIVE_MODS c) = Some 0 \<longleftrightarrow> ?L = Some False"
    unfolding list_only using f(4) by (auto split: option.splits bool.splits)
  have read_iff: "fs_file_disabled c st file (FD_CHECK_READ_INACTIVE_MODS c) = Some (FD_CHECK_READ_INACTIVE_MODS c)
      \<longleftrightarrow> ?R = Some True"
    and read_zero: "fs_file_disabled c st file (FD_CHECK_READ_INACTIVE_MODS c) = Some 0 \<longleftrightarrow> ?R = Some False"
    unfolding read_only using f(2) by (auto split: option.splits bool.splits)
  have same: "?L = ?R" if "fs_read_inactive_mods st \<le> fs_list_inactive_mods st"
    using that unfolding level by (simp add: min_def)
  have never: "?L = Some True" if "?R = Some True"
    unfolding level by (rule inactive_mod_level_mono [OF _ that]) simp
  show ?thesis
    unfolding list_iff list_zero read_iff read_zero
    using level list_only same never by (simp add: level)
qed

lemma pure_list_example_inv: "\<exists>bss. pk3_inv (fst pure_list_example) (snd pure_list_example) [10, 11] bss"
proof -
  have z: "0 < next_free zone_example" by (simp add: zone_example_def)
  have init: "pk3_list_initialize 2 = Some \<lparr>ht = \<lparr>buckets = [0, 0], bucket_count = 2, element_count = 0\<rparr>\<rparr>"
    by (simp add: pk3_list_initialize_def fs_hashtable_initialize_def numeral_2_eq_2)
  from pk3_initialize_inv [OF init z]
  have "pk3_inv \<lparr>ht = \<lparr>buckets = [0, 0], bucket_count = 2, element_count = 0\<rparr>\<rparr> zone_example []
          (replicate 2 [])"
    by simp
  from pk3_insert_all_inv [OF this, of "[10, 11]"]
  obtain pl z bss where
    run: "pk3_list_insert_all \<lparr>ht = \<lparr>buckets = [0, 0], bucket_count = 2, element_count = 0\<rparr>\<rparr>
            zone_example [10, 11] = Some (pl, z)"
    and inv: "pk3_inv pl z (first_insertions [] [10, 11]) bss"
    by blast
  have "first_insertions [] [10, 11 :: 32 word] = [10, 11]"
    by (simp add: first_insertions_def)
  then show ?thesis
    using run inv by (auto simp: pure_list_example_def)
qed

lemma state_example_lookups_return: "pure_list_lookups_return state_example"
proof -
  obtain bss where "pk3_inv (fst pure_list_example) (snd pure_list_example) [10, 11] bss"
    using pure_list_example_inv by blast
  then show ?thesis
    by (simp add: pure_list_lookups_return_def state_example_def pk3_lookup_chain)
qed

lemma state_example_lookup_99:
  "pk3_list_lookup (connected_server_pure_list state_example) (zone_memory state_example) 99 = Some 0"
proof -
  obtain bss where "pk3_inv (fst pure_list_example) (snd pure_list_example) [10, 11] bss"
    using pure_list_example_inv by blast
  from pk3_lookup_absent [OF this, of 99] show ?thesis
    by (simp add: state_example_def)
qed

lemma constants_example_independent: "fd_flags_independent constants_example"
  by (simp add: fd_flags_independent_def constants_example_def)

lemma file_example_mod_type:
  "fs_get_mod_type constants_example state_example (Some (fsc_get_mod_dir file_example)) = MODTYPE_INACTIVE"
  by (simp add: fs_get_mod_type_def fs_sanitize_mod_dir_def file_example_def pk3_example_def
      state_example_def constants_example_def Q_stricmp_def ascii_upper_def)

lemma file_example_inactive:
  "inactive_mod_file_disabled constants_example state_example file_example 0 ignore_servercfg = Some True"
  by (simp add: inactive_mod_file_disabled_def file_example_mod_type servercfg_allows_def
      fs_servercfg_priority_def servercfg_folders_def)
     (simp add: state_example_def)

lemma file_example_pure: "pure_list_blocks state_example file_example = Some True"
proof -
  have "get_pk3_list_position state_example file_example = Some 0"
    using state_example_lookup_99
    by (simp add: get_pk3_list_position_def file_example_def pk3_example_def)
  then show ?thesis by (simp add: pure_list_blocks_def state_example_def)
qed

lemma state_example_levels:
  "fs_read_inactive_mods state_example = 0" "list_inactive_mods_level state_example = 0"
  by (simp_all add: list_inactive_mods_level_def state_example_def)

theorem fs_file_disabled_priority_witness:
  "fs_file_disabled constants_example state_example file_example 3 = Some 1 \<and>
   fs_file_disabled constants_example state_example file_example 10 = Some 2 \<and>
   fs_file_disabled constants_example state_example file_example 16 = Some 0"
proof -
  have checks: "fd_checks constants_example state_example file_example =
      [(1, Some True), (2, Some True), (4, Some True), (8, Some True), (16, Some False)]"
    by (simp add: fd_checks_def file_example_pure file_example_inactive state_example_levels
        servercfg_list_limited_def)
       (simp add: constants_example_def state_example_def)
  show ?thesis
    using fs_file_disabled_priority [OF state_example_lookups_return constants_example_independent,
        of file_example]
    by (simp add: checks)
qed

theorem fs_file_disabled_non_pk3_witness:
  "fs_file_disabled constants_example state_example (File_direct pk3_example) 3 = Some 1"
proof -
  have a: "connected_server_pure_state state_example = 1" by (simp add: state_example_def)
  have b: "3 AND FD_CHECK_PURE_LIST constants_example \<noteq> 0" by (simp add: constants_example_def)
  have c: "sourcetype (File_direct pk3_example) \<noteq> FSC_SOURCETYPE_PK3" by simp
  show ?thesis
    using fs_file_disabled_non_pk3 [OF a b c] by (simp add: constants_example_def)
qed

theorem list_inactive_mods_never_exceeds_read_witness:
  "list_inactive_mods_level state_example = 0 \<and>
   fs_file_disabled constants_example state_example file_example 8 = Some 8 \<and>
   fs_file_disabled constants_example state_example file_example 2 = Some 2"
proof -
  have r: "fs_read_inactive_mods state_example \<le> fs_list_inactive_mods state_example"
    by (simp add: state_example_def)
  have ids: "FD_CHECK_LIST_INACTIVE_MODS constants_example = 8"
    "FD_CHECK_READ_INACTIVE_MODS constants_example = 2"
    by (simp_all add: constants_example_def)
  have m: "min (fs_read_inactive_mods state_example) (fs_list_inactive_mods state_example) = 0"
    by (simp add: state_example_def)
  show ?thesis
    using list_inactive_mods_never_exceeds_read [OF constants_example_independent,
        of state_example file_example] r
    by (auto simp add: ids m file_example_inactive state_example_levels)
qed

subsection \<open>Core pak verification\<close>

lemma fs_file_disabled_returns:
  assumes "pure_list_lookups_return st"
  shows "\<exists>d. fs_file_disabled c st file checks = Some d"
  using fs_file_disabled_first_triggered [OF assms] by blast

lemma pak_candidates_of_Nil: "pak_candidates_of c st mod_dir [] = []"
  by (simp add: pak_candidates_of_def map_filter_simps)

lemma pak_candidates_of_Cons:
  "pak_candidates_of c st mod_dir (file # files) =
     (case file of
        File_direct pk3 \<Rightarrow>
          if is_pak_candidate c st mod_dir file then pk3 # pak_candidates_of c st mod_dir files
          else pak_candidates_of c st mod_dir files
      | _ \<Rightarrow> pak_candidates_of c st mod_dir files)"
  by (simp add: pak_candidates_of_def map_filter_simps split: fsc_file.splits)

lemma get_pak_state_files_spec:
  assumes "pure_list_lookups_return st"
  shows "get_pak_state_files c st mod_dir hash files name_match0 =
           Some (case find (\<lambda>pk3. pk3_hash pk3 = hash) (pak_candidates_of c st mod_dir files) of
                   Some pk3 \<Rightarrow> Inl \<lparr>name_match = Some pk3, hash_match = Some pk3\<rparr>
                 | None \<Rightarrow>
                     Inr (if pak_candidates_of c st mod_dir files = [] then name_match0
                          else Some (last (pak_candidates_of c st mod_dir files))))"
proof (induction files arbitrary: name_match0)
  case Nil
  show ?case by (simp add: pak_candidates_of_Nil)
next
  case (Cons this_file files)
  show ?case
  proof (cases this_file)
    case (File_direct pk3)
    obtain d where d: "fs_file_disabled c st (File_direct pk3) (FD_CHECK_READ_INACTIVE_MODS c) = Some d"
      using fs_file_disabled_returns [OF assms] by blast
    show ?thesis
    proof (cases "is_pak_candidate c st mod_dir (File_direct pk3)")
      case True
      then have t: "d = 0" "Q_stricmp (qp_ext (File_direct pk3)) ''.pk3'' = 0"
        "\<not> (case mod_dir of None \<Rightarrow> False | Some m \<Rightarrow> Q_stricmp (fsc_get_mod_dir (File_direct pk3)) m \<noteq> 0)"
        using d by (auto simp: is_pak_candidate_def split: option.splits)
      have cs: "pak_candidates_of c st mod_dir (File_direct pk3 # files) =
          pk3 # pak_candidates_of c st mod_dir files"
        using True by (simp add: pak_candidates_of_Cons)
      have step: "get_pak_state_files c st mod_dir hash (File_direct pk3 # files) name_match0 =
          (if pk3_hash pk3 = hash then Some (Inl \<lparr>name_match = Some pk3, hash_match = Some pk3\<rparr>)
           else get_pak_state_files c st mod_dir hash files (Some pk3))"
        by (simp add: d t del: qp_ext.simps fsc_get_mod_dir.simps)
      show ?thesis
        unfolding File_direct step cs using Cons.IH [of "Some pk3"]
        by (simp split: option.splits)
    next
      case False
      then have f: "d \<noteq> 0 \<or> Q_stricmp (qp_ext (File_direct pk3)) ''.pk3'' \<noteq> 0 \<or>
        (case mod_dir of None \<Rightarrow> False | Some m \<Rightarrow> Q_stricmp (fsc_get_mod_dir (File_direct pk3)) m \<noteq> 0)"
        using d by (auto simp: is_pak_candidate_def split: option.splits)
      have cs: "pak_candidates_of c st mod_dir (File_direct pk3 # files) =
          pak_candidates_of c st mod_dir files"
        using False by (simp add: pak_candidates_of_Cons)
      have step: "get_pak_state_files c st mod_dir hash (File_direct pk3 # files) name_match0 =
          get_pak_state_files c st mod_dir hash files name_match0"
        using f by (auto simp add: d simp del: qp_ext.simps fsc_get_mod_dir.simps)
      show ?thesis
        unfolding File_direct step cs by (rule Cons.IH)
    qed
  next
    case (File_frompk3 p)
    have cs: "pak_candidates_of c st mod_dir (this_file # files) = pak_candidates_of c st mod_dir files"
      by (simp add: pak_candidates_of_Cons \<open>this_file = _\<close>)
    have step: "get_pak_state_files c st mod_dir hash (this_file # files) name_match0 =
        get_pak_state_files c st mod_dir hash files name_match0"
      by (simp add: \<open>this_file = _\<close>)
    show ?thesis unfolding step cs by (rule Cons.IH)
  next
    case (File_other x)
    have cs: "pak_candidates_of c st mod_dir (this_file # files) = pak_candidates_of c st mod_dir files"
      by (simp add: pak_candidates_of_Cons \<open>this_file = _\<close>)
    have step: "get_pak_state_files c st mod_dir hash (this_file # files) name_match0 =
        get_pak_state_files c st mod_dir hash files name_match0"
      by (simp add: \<open>this_file = _\<close>)
    show ?thesis unfolding step cs by (rule Cons.IH)
  qed
qed

lemma get_pak_state_pk3s_spec:
  assumes "pure_list_lookups_return st"
  shows "get_pak_state_pk3s c st pk3s = Some (find (pk3_usable c st) pk3s)"
proof (induction pk3s)
  case Nil
  show ?case by simp
next
  case (Cons pk3 pk3s)
  obtain d where d: "fs_file_disabled c st (File_direct pk3) (FD_CHECK_READ_INACTIVE_MODS c) = Some d"
    using fs_file_disabled_returns [OF assms] by blast
  show ?case using Cons.IH by (simp add: d pk3_usable_def)
qed

lemma example_read_flag: "FD_CHECK_READ_INACTIVE_MODS constants_example = 2"
  by (simp add: constants_example_def)

lemma two_paks_lookups_return: "pure_list_lookups_return state_two_paks"
  using state_example_lookups_return
  by (simp add: pure_list_lookups_return_def state_two_paks_def)

lemma two_paks_mod_type:
  "fs_get_mod_type constants_example state_two_paks (Some ''baseq3'') = MODTYPE_BASE"
  by (simp add: fs_get_mod_type_def fs_sanitize_mod_dir_def state_two_paks_def
      state_example_def constants_example_def Q_stricmp_def ascii_upper_def)

lemma two_paks_not_disabled:
  "fs_file_disabled constants_example state_two_paks (File_direct pak_a) 2 = Some 0"
  "fs_file_disabled constants_example state_two_paks (File_direct pak_b) 2 = Some 0"
proof -
  have a: "inactive_mod_file_disabled constants_example state_two_paks (File_direct pak_a)
             (fs_read_inactive_mods state_two_paks) False = Some False"
    by (simp add: inactive_mod_file_disabled_def pak_a_def two_paks_mod_type)
  have b: "inactive_mod_file_disabled constants_example state_two_paks (File_direct pak_b)
             (fs_read_inactive_mods state_two_paks) False = Some False"
    by (simp add: inactive_mod_file_disabled_def pak_b_def two_paks_mod_type)
  show "fs_file_disabled constants_example state_two_paks (File_direct pak_a) 2 = Some 0"
    using fs_file_disabled_read_only [OF constants_example_independent, of state_two_paks "File_direct pak_a"]
    by (simp add: example_read_flag a)
  show "fs_file_disabled constants_example state_two_paks (File_direct pak_b) 2 = Some 0"
    using fs_file_disabled_read_only [OF constants_example_independent, of state_two_paks "File_direct pak_b"]
    by (simp add: example_read_flag b)
qed

lemma two_paks_pk3_ext:
  "Q_stricmp (qp_ext (File_direct pak_a)) ''.pk3'' = 0"
  "Q_stricmp (qp_ext (File_direct pak_b)) ''.pk3'' = 0"
  "Q_stricmp (fsc_get_mod_dir (File_direct pak_a)) ''baseq3'' = 0"
  "Q_stricmp (fsc_get_mod_dir (File_direct pak_b)) ''baseq3'' = 0"
  by (simp_all add: pak_a_def pak_b_def Q_stricmp_def)

lemma two_paks_hashes: "pk3_hash pak_a = 7" "pk3_hash pak_b = 8" "pak_a \<noteq> pak_b"
  by (simp_all add: pak_a_def pak_b_def)

lemma two_paks_files:
  "files_named state_two_paks ''pak0'' = [File_direct pak_a, File_direct pak_b]"
  "pk3s_with_hash state_two_paks hash = []"
  by (simp_all add: state_two_paks_def state_example_def)

lemma two_paks_candidates:
  "pak_candidates constants_example state_two_paks (Some ''baseq3'') ''pak0'' = [pak_a, pak_b]"
  by (simp add: pak_candidates_def two_paks_files pak_candidates_of_Cons pak_candidates_of_Nil
      is_pak_candidate_def example_read_flag two_paks_not_disabled two_paks_pk3_ext
      del: qp_ext.simps fsc_get_mod_dir.simps)

text \<open>
  Claim C7, as amended.  In a state where the lookups in the pure list return, take the
  files the index yields for the name that are direct, not disabled, of extension
  ".pk3" and in the expected directory (\<open>pak_candidates\<close>), in the order of the
  iteration.  \<^verbatim>\<open>get_pak_state\<close> returns, and
  \<^item> if one of them has the expected hash, the state is the exact one: \<^verbatim>\<open>name_match\<close>
    and \<^verbatim>\<open>hash_match\<close> are both the first such file, the same object, whatever the
    index yields for the hash;
  \<^item> otherwise \<^verbatim>\<open>name_match\<close> is the last of them (null if there is none), and
    \<^verbatim>\<open>hash_match\<close> is the first pk3 the index yields for the hash that is not
    disabled (null if there is none).
\<close>

theorem get_pak_state_matches:
  assumes "pure_list_lookups_return st"
  shows "get_pak_state c st mod_dir filename hash =
           Some (case find (\<lambda>pk3. pk3_hash pk3 = hash) (pak_candidates c st mod_dir filename) of
                   Some pk3 \<Rightarrow> \<lparr>name_match = Some pk3, hash_match = Some pk3\<rparr>
                 | None \<Rightarrow>
                     \<lparr>name_match = (if pak_candidates c st mod_dir filename = [] then None
                                    else Some (last (pak_candidates c st mod_dir filename))),
                      hash_match = find (pk3_usable c st) (pk3s_with_hash st hash)\<rparr>)"
  unfolding get_pak_state_def pak_candidates_def
  by (simp add: get_pak_state_files_spec [OF assms] get_pak_state_pk3s_spec [OF assms]
      split: option.splits)

theorem get_pak_state_matches_witness:
  "pure_list_lookups_return state_two_paks \<and>
   get_pak_state constants_example state_two_paks (Some ''baseq3'') ''pak0'' 8 =
     Some \<lparr>name_match = Some pak_b, hash_match = Some pak_b\<rparr> \<and>
   get_pak_state constants_example state_two_paks (Some ''baseq3'') ''pak1'' 8 =
     Some \<lparr>name_match = None, hash_match = None\<rparr>"
proof -
  have none: "pak_candidates constants_example state_two_paks (Some ''baseq3'') ''pak1'' = []"
    by (simp add: pak_candidates_def pak_candidates_of_Nil state_two_paks_def)
  show ?thesis
    using get_pak_state_matches [OF two_paks_lookups_return, of constants_example "Some ''baseq3''" "''pak0''" 8]
      get_pak_state_matches [OF two_paks_lookups_return, of constants_example "Some ''baseq3''" "''pak1''" 8]
    by (simp add: two_paks_lookups_return two_paks_candidates two_paks_hashes two_paks_files none)
qed

text \<open>
  The claim as stated, that the name match is the first file encountered, fails when
  two files qualify and neither has the expected hash: of the two pk3s named "pak0" in
  "baseq3" the second one is the name match.
\<close>

theorem get_pak_state_name_match_last:
  "pak_candidates constants_example state_two_paks (Some ''baseq3'') ''pak0'' = [pak_a, pak_b] \<and>
   pak_a \<noteq> pak_b \<and>
   get_pak_state constants_example state_two_paks (Some ''baseq3'') ''pak0'' (core_hashes ! 0) =
     Some \<lparr>name_match = Some pak_b, hash_match = None\<rparr>"
proof -
  have h: "core_hashes ! 0 = 1566731103" by (simp add: core_hashes_def)
  have "get_pak_state_files constants_example state_two_paks (Some ''baseq3'') 1566731103
          [File_direct pak_a, File_direct pak_b] None = Some (Inr (Some pak_b))"
    by (simp add: example_read_flag two_paks_not_disabled two_paks_pk3_ext two_paks_hashes
        del: qp_ext.simps fsc_get_mod_dir.simps)
  then show ?thesis
    by (simp add: two_paks_candidates two_paks_hashes h get_pak_state_def two_paks_files)
qed

lemma those_map_Some:
  "(\<And>x. x \<in> set xs \<Longrightarrow> f x = Some (g x)) \<Longrightarrow> those (map f xs) = Some (map g xs)"
  by (induction xs) simp_all

lemma pak_states_no_hash_match:
  assumes "no_hash_match c st mod_dir hashes"
  shows "\<exists>states. pak_states c st mod_dir hashes = Some states \<and> length states = length hashes \<and>
           list_all (\<lambda>s. hash_match s = None) states"
proof -
  define f where "f = (\<lambda>i. get_pak_state c st (Some mod_dir) (pak_name i) (hashes ! i))"
  define g where "g = (\<lambda>i. the (f i))"
  have "\<forall>i \<in> set [0..<length hashes]. case f i of None \<Rightarrow> False | Some state \<Rightarrow> hash_match state = None"
    using assms unfolding no_hash_match_def f_def list_all_iff .
  then have each: "f i = Some (g i)" and none: "hash_match (g i) = None"
    if "i \<in> set [0..<length hashes]" for i
    using that unfolding g_def by (force split: option.splits)+
  have "those (map f [0..<length hashes]) = Some (map g [0..<length hashes])"
    using each by (rule those_map_Some)
  then have "pak_states c st mod_dir hashes = Some (map g [0..<length hashes])"
    unfolding pak_states_def f_def .
  moreover have "list_all (\<lambda>s. hash_match s = None) (map g [0..<length hashes])"
    unfolding list_all_iff using none by auto
  ultimately show ?thesis by simp
qed

lemma no_list_ex_hash_match:
  "list_all (\<lambda>s. hash_match s = None) states \<Longrightarrow> list_ex (\<lambda>s. hash_match s \<noteq> None) states = False"
  by (simp add: list_all_iff list_ex_iff)

lemma generate_pak_warnings_no_hash:
  assumes "hash_match state = None"
  shows "generate_pak_warnings mod_dir filename state =
           (if name_match state \<noteq> None
            then ([Incorrect_hash mod_dir filename], [Incorrect_hash mod_dir filename])
            else ([Not_found mod_dir filename], [Not_found mod_dir filename]))"
  using assms by (simp add: generate_pak_warnings_def)

lemma table_warnings_no_hash:
  assumes "list_all (\<lambda>s. hash_match s = None) states" and "i < length states"
  shows "Incorrect_hash mod_dir (pak_name i) \<in> set (snd (table_warnings mod_dir states)) \<or>
         Not_found mod_dir (pak_name i) \<in> set (snd (table_warnings mod_dir states))"
proof -
  have "hash_match (states ! i) = None"
    using assms by (simp add: list_all_length)
  from generate_pak_warnings_no_hash [OF this, of mod_dir "pak_name i"]
  have "Incorrect_hash mod_dir (pak_name i) \<in> set (snd (generate_pak_warnings mod_dir (pak_name i) (states ! i))) \<or>
        Not_found mod_dir (pak_name i) \<in> set (snd (generate_pak_warnings mod_dir (pak_name i) (states ! i)))"
    by (simp split: if_splits)
  moreover have "i \<in> set [0..<length states]" using assms(2) by simp
  ultimately show ?thesis
    unfolding table_warnings_def Let_def snd_conv set_concat set_map by blast
qed

lemma check_default_cfg_files_returns:
  assumes "pure_list_lookups_return st"
  shows "\<exists>b. check_default_cfg_files c st mod_dir filename hash files = Some b"
proof (induction files)
  case Nil
  have "check_default_cfg_files c st mod_dir filename hash [] = Some False" by simp
  then show ?case by blast
next
  case (Cons this_file files)
  obtain d where d: "fs_file_disabled c st this_file (FD_CHECK_READ_INACTIVE_MODS c) = Some d"
    using fs_file_disabled_returns [OF assms] by blast
  have "check_default_cfg_files c st mod_dir filename hash (this_file # files) = Some True \<or>
        check_default_cfg_files c st mod_dir filename hash (this_file # files) =
          check_default_cfg_files c st mod_dir filename hash files"
    using d by (cases this_file) (auto simp del: qp_ext.simps split: option.splits)
  then show ?case using Cons.IH by auto
qed

lemma check_core_paks_standalone_branch:
  assumes "pak_states c st (BASEGAME c) core_hashes = Some core_states"
    and "pak_states c st ''missionpack'' missionpack_hashes = Some missionpack_states"
    and "list_ex (\<lambda>s. hash_match s \<noteq> None) core_states = False"
    and "list_ex (\<lambda>s. hash_match s \<noteq> None) missionpack_states = False"
    and "Q_stricmp (com_basegame st) (BASEGAME c) \<noteq> 0"
  shows "fs_check_core_paks c st =
           Some \<lparr>console = [Enabling_standalone_mode], warning_popup = [],
                 com_standalone = True, dialog_shown = False\<rparr>"
  unfolding fs_check_core_paks_def assms(1,2)
  by (simp only: option.case Let_def assms(3,4,5) simp_thms if_True not_False_eq_True)

lemma check_core_paks_warning_branch:
  assumes "pak_states c st (BASEGAME c) core_hashes = Some core_states"
    and "pak_states c st ''missionpack'' missionpack_hashes = Some missionpack_states"
    and "Q_stricmp (com_basegame st) (BASEGAME c) = 0"
    and "(if name_match (core_states ! 0) \<noteq> None \<or> hash_match (core_states ! 0) \<noteq> None
          then check_default_cfg_pk3 c st (Some (BASEGAME c)) ''pak0'' (core_hashes ! 0)
          else Some True) = Some have_default_cfg"
  shows "fs_check_core_paks c st =
     Some \<lparr>console = fst (table_warnings (BASEGAME c) core_states)
              @ fst (if list_ex (\<lambda>s. name_match s \<noteq> None \<or> hash_match s \<noteq> None) missionpack_states
                     then table_warnings ''missionpack'' missionpack_states else ([], []))
              @ (if have_default_cfg then [] else [Default_cfg_not_found]),
           warning_popup = snd (table_warnings (BASEGAME c) core_states)
              @ snd (if list_ex (\<lambda>s. name_match s \<noteq> None \<or> hash_match s \<noteq> None) missionpack_states
                     then table_warnings ''missionpack'' missionpack_states else ([], []))
              @ (if have_default_cfg then [] else [Default_cfg_not_found]),
           com_standalone = False,
           dialog_shown = (\<not> DEDICATED c \<and>
             snd (table_warnings (BASEGAME c) core_states)
              @ snd (if list_ex (\<lambda>s. name_match s \<noteq> None \<or> hash_match s \<noteq> None) missionpack_states
                     then table_warnings ''missionpack'' missionpack_states else ([], []))
              @ (if have_default_cfg then [] else [Default_cfg_not_found]) \<noteq> [])\<rparr>"
  unfolding fs_check_core_paks_def assms(1,2)
  by (simp only: option.case Let_def assms(3,4) simp_thms if_False)

lemma default_cfg_check_returns:
  assumes "pure_list_lookups_return st"
  shows "\<exists>b. (if name_match (state :: core_pak_state) \<noteq> None \<or> hash_match state \<noteq> None
               then check_default_cfg_pk3 c st mod_dir filename hash
               else Some True) = Some b"
proof (cases "name_match state \<noteq> None \<or> hash_match state \<noteq> None")
  case True
  obtain b where "check_default_cfg_pk3 c st mod_dir filename hash = Some b"
    using check_default_cfg_files_returns [OF assms] unfolding check_default_cfg_pk3_def by blast
  then show ?thesis using True by (simp only: if_True) blast
next
  case False
  then show ?thesis by (simp only: if_False) blast
qed

lemma get_pak_state_empty_index:
  assumes "files_named st = (\<lambda>name. [])" and "pk3s_with_hash st = (\<lambda>hash. [])"
  shows "get_pak_state c st mod_dir filename hash = Some \<lparr>name_match = None, hash_match = None\<rparr>"
  by (simp add: get_pak_state_def assms)

lemma pak_states_empty_index:
  assumes "files_named st = (\<lambda>name. [])" and "pk3s_with_hash st = (\<lambda>hash. [])"
  shows "pak_states c st mod_dir hashes =
           Some (replicate (length hashes) \<lparr>name_match = None, hash_match = None\<rparr>)"
proof -
  have "those (map (\<lambda>i. get_pak_state c st (Some mod_dir) (pak_name i) (hashes ! i)) [0..<length hashes])
      = Some (map (\<lambda>i. \<lparr>name_match = None, hash_match = None\<rparr>) [0..<length hashes])"
    by (rule those_map_Some) (rule get_pak_state_empty_index [OF assms])
  then show ?thesis by (simp add: pak_states_def map_replicate_const)
qed

lemma no_hash_match_empty_index:
  assumes "files_named st = (\<lambda>name. [])" and "pk3s_with_hash st = (\<lambda>hash. [])"
  shows "no_hash_match c st mod_dir hashes"
  by (simp add: no_hash_match_def list_all_iff get_pak_state_empty_index [OF assms])

lemma example_empty_index:
  "files_named state_example = (\<lambda>name. [])" "pk3s_with_hash state_example = (\<lambda>hash. [])"
  "files_named state_other_game = (\<lambda>name. [])" "pk3s_with_hash state_other_game = (\<lambda>hash. [])"
  by (simp_all add: state_example_def state_other_game_def)

lemma example_basegame:
  "Q_stricmp (com_basegame state_example) (BASEGAME constants_example) = 0"
  "Q_stricmp (com_basegame state_other_game) (BASEGAME constants_example) \<noteq> 0"
  by (simp_all add: state_example_def state_other_game_def constants_example_def Q_stricmp_def
      ascii_upper_def)

lemma table_warnings_not_found:
  "table_warnings mod_dir (replicate (length core_hashes) \<lparr>name_match = None, hash_match = None\<rparr>) =
     ([Not_found mod_dir ''pak0'', Not_found mod_dir ''pak1'', Not_found mod_dir ''pak2'',
       Not_found mod_dir ''pak3'', Not_found mod_dir ''pak4'', Not_found mod_dir ''pak5'',
       Not_found mod_dir ''pak6'', Not_found mod_dir ''pak7'', Not_found mod_dir ''pak8''],
      [Not_found mod_dir ''pak0'', Not_found mod_dir ''pak1'', Not_found mod_dir ''pak2'',
       Not_found mod_dir ''pak3'', Not_found mod_dir ''pak4'', Not_found mod_dir ''pak5'',
       Not_found mod_dir ''pak6'', Not_found mod_dir ''pak7'', Not_found mod_dir ''pak8''])"
  by (simp add: core_hashes_def table_warnings_def generate_pak_warnings_def pak_name_def upt_rec)

text \<open>
  Claim C6, as amended.  Let every pak of the two tables, the core paks and the
  missionpack paks, have no hash match: \<^verbatim>\<open>get_pak_state\<close> returns for it with a null
  \<^verbatim>\<open>hash_match\<close>.
  \<^item> If the base game \<^verbatim>\<open>com_basegame\<close> is not the default one (\<^verbatim>\<open>Q_stricmp\<close> of it and
    \<^verbatim>\<open>BASEGAME\<close> is not zero), \<^verbatim>\<open>fs_check_core_paks\<close> prints that it enables standalone
    mode, sets \<^verbatim>\<open>com_standalone\<close> and returns at once: no warning for any pak is
    printed, nothing is put in the popup and no dialog is shown.
  \<^item> If the base game is the default one (and the lookups in the pure list return),
    the function returns without setting \<^verbatim>\<open>com_standalone\<close>: every core pak gets its
    warning, incorrect hash or not found, in the popup, and without \<^verbatim>\<open>DEDICATED\<close> the
    dialog is shown.
\<close>

theorem fs_check_core_paks_standalone:
  assumes "no_hash_match c st (BASEGAME c) core_hashes"
    and "no_hash_match c st ''missionpack'' missionpack_hashes"
  shows "(Q_stricmp (com_basegame st) (BASEGAME c) \<noteq> 0 \<longrightarrow>
            fs_check_core_paks c st =
              Some \<lparr>console = [Enabling_standalone_mode], warning_popup = [],
                    com_standalone = True, dialog_shown = False\<rparr>) \<and>
         (Q_stricmp (com_basegame st) (BASEGAME c) = 0 \<and> pure_list_lookups_return st \<longrightarrow>
            (\<exists>report. fs_check_core_paks c st = Some report \<and> \<not> com_standalone report \<and>
               dialog_shown report = (\<not> DEDICATED c) \<and>
               (\<forall>i<length core_hashes.
                  Incorrect_hash (BASEGAME c) (pak_name i) \<in> set (warning_popup report) \<or>
                  Not_found (BASEGAME c) (pak_name i) \<in> set (warning_popup report))))"
proof -
  obtain core_states where core: "pak_states c st (BASEGAME c) core_hashes = Some core_states"
    and core_length: "length core_states = length core_hashes"
    and core_none: "list_all (\<lambda>s. hash_match s = None) core_states"
    using pak_states_no_hash_match [OF assms(1)] by blast
  obtain missionpack_states
    where missionpack: "pak_states c st ''missionpack'' missionpack_hashes = Some missionpack_states"
    and missionpack_none: "list_all (\<lambda>s. hash_match s = None) missionpack_states"
    using pak_states_no_hash_match [OF assms(2)] by blast
  have first: "fs_check_core_paks c st =
      Some \<lparr>console = [Enabling_standalone_mode], warning_popup = [],
            com_standalone = True, dialog_shown = False\<rparr>"
    if "Q_stricmp (com_basegame st) (BASEGAME c) \<noteq> 0"
    using core missionpack no_list_ex_hash_match [OF core_none]
      no_list_ex_hash_match [OF missionpack_none] that
    by (rule check_core_paks_standalone_branch)
  have second: "\<exists>report. fs_check_core_paks c st = Some report \<and> \<not> com_standalone report \<and>
      dialog_shown report = (\<not> DEDICATED c) \<and>
      (\<forall>i<length core_hashes.
         Incorrect_hash (BASEGAME c) (pak_name i) \<in> set (warning_popup report) \<or>
         Not_found (BASEGAME c) (pak_name i) \<in> set (warning_popup report))"
    if same: "Q_stricmp (com_basegame st) (BASEGAME c) = 0" and ret: "pure_list_lookups_return st"
  proof -
    obtain b where b: "(if name_match (core_states ! 0) \<noteq> None \<or> hash_match (core_states ! 0) \<noteq> None
                         then check_default_cfg_pk3 c st (Some (BASEGAME c)) ''pak0'' (core_hashes ! 0)
                         else Some True) = Some b"
      using default_cfg_check_returns [OF ret] by blast
    define rest where "rest =
        snd (if list_ex (\<lambda>s. name_match s \<noteq> None \<or> hash_match s \<noteq> None) missionpack_states
             then table_warnings ''missionpack'' missionpack_states else ([], []))
        @ (if b then [] else [Default_cfg_not_found])"
    define popup where "popup = snd (table_warnings (BASEGAME c) core_states) @ rest"
    note run = check_core_paks_warning_branch [OF core missionpack same b]
    have warned: "Incorrect_hash (BASEGAME c) (pak_name i) \<in> set popup \<or>
        Not_found (BASEGAME c) (pak_name i) \<in> set popup" if "i < length core_hashes" for i
      using table_warnings_no_hash [OF core_none, of i "BASEGAME c"] that core_length
      unfolding popup_def by auto
    have "0 < length core_hashes" by (simp add: core_hashes_def)
    from warned [OF this] have nonempty: "popup \<noteq> []" by auto
    define report where "report = the (fs_check_core_paks c st)"
    have r1: "fs_check_core_paks c st = Some report" unfolding report_def run by simp
    have r2: "\<not> com_standalone report" unfolding report_def run by simp
    have r4: "warning_popup report = popup" unfolding report_def run popup_def rest_def by simp
    have r3: "dialog_shown report = (\<not> DEDICATED c)"
      using nonempty unfolding report_def run popup_def rest_def by simp
    show ?thesis
      using r1 r2 r3 warned unfolding r4 [symmetric] by blast
  qed
  show ?thesis using first second by blast
qed

theorem fs_check_core_paks_standalone_witness:
  "fs_check_core_paks constants_example state_other_game =
     Some \<lparr>console = [Enabling_standalone_mode], warning_popup = [],
           com_standalone = True, dialog_shown = False\<rparr> \<and>
   (\<exists>report. fs_check_core_paks constants_example state_example = Some report \<and>
      \<not> com_standalone report \<and> dialog_shown report \<and>
      (Incorrect_hash ''baseq3'' ''pak0'' \<in> set (warning_popup report) \<or>
       Not_found ''baseq3'' ''pak0'' \<in> set (warning_popup report)))"
proof -
  have zero: "0 < length core_hashes" by (simp add: core_hashes_def)
  have names: "BASEGAME constants_example = ''baseq3''" "DEDICATED constants_example = False"
    "pak_name 0 = ''pak0''"
    by (simp_all add: constants_example_def pak_name_def)
  have other: "fs_check_core_paks constants_example state_other_game =
     Some \<lparr>console = [Enabling_standalone_mode], warning_popup = [],
           com_standalone = True, dialog_shown = False\<rparr>"
    using fs_check_core_paks_standalone [of constants_example state_other_game,
        OF no_hash_match_empty_index [OF example_empty_index(3,4)]
           no_hash_match_empty_index [OF example_empty_index(3,4)]]
      example_basegame(2)
    by blast
  have "\<exists>report. fs_check_core_paks constants_example state_example = Some report \<and>
      \<not> com_standalone report \<and> dialog_shown report = (\<not> DEDICATED constants_example) \<and>
      (\<forall>i<length core_hashes.
         Incorrect_hash (BASEGAME constants_example) (pak_name i) \<in> set (warning_popup report) \<or>
         Not_found (BASEGAME constants_example) (pak_name i) \<in> set (warning_popup report))"
    using fs_check_core_paks_standalone [of constants_example state_example,
        OF no_hash_match_empty_index [OF example_empty_index(1,2)]
           no_hash_match_empty_index [OF example_empty_index(1,2)]]
      example_basegame(1) state_example_lookups_return
    by blast
  then obtain report where r: "fs_check_core_paks constants_example state_example = Some report"
      "\<not> com_standalone report" "dialog_shown report = (\<not> DEDICATED constants_example)"
    and every: "\<forall>i<length core_hashes.
         Incorrect_hash (BASEGAME constants_example) (pak_name i) \<in> set (warning_popup report) \<or>
         Not_found (BASEGAME constants_example) (pak_name i) \<in> set (warning_popup report)"
    by blast
  from every zero
  have "Incorrect_hash (BASEGAME constants_example) (pak_name 0) \<in> set (warning_popup report) \<or>
        Not_found (BASEGAME constants_example) (pak_name 0) \<in> set (warning_popup report)"
    by blast
  then have "Incorrect_hash ''baseq3'' ''pak0'' \<in> set (warning_popup report) \<or>
         Not_found ''baseq3'' ''pak0'' \<in> set (warning_popup report)"
    unfolding names .
  moreover have "dialog_shown report" using r(3) unfolding names by simp
  ultimately show ?thesis using other r(1,2) by blast
qed

text \<open>
  The claim as stated, with no condition on the base game, fails for the default base
  game: with "baseq3" as \<^verbatim>\<open>BASEGAME\<close> and as \<^verbatim>\<open>com_basegame\<close> and an index without
  files, no pak has a hash match, and the function reports each of the nine core paks as
  not found, on the console and in the popup, shows the dialog and does not set
  \<^verbatim>\<open>com_standalone\<close>.
\<close>

theorem fs_check_core_paks_default_basegame:
  "no_hash_match constants_example state_example (BASEGAME constants_example) core_hashes \<and>
   no_hash_match constants_example state_example ''missionpack'' missionpack_hashes \<and>
   fs_check_core_paks constants_example state_example =
     Some \<lparr>console =
             [Not_found ''baseq3'' ''pak0'', Not_found ''baseq3'' ''pak1'', Not_found ''baseq3'' ''pak2'',
              Not_found ''baseq3'' ''pak3'', Not_found ''baseq3'' ''pak4'', Not_found ''baseq3'' ''pak5'',
              Not_found ''baseq3'' ''pak6'', Not_found ''baseq3'' ''pak7'', Not_found ''baseq3'' ''pak8''],
           warning_popup =
             [Not_found ''baseq3'' ''pak0'', Not_found ''baseq3'' ''pak1'', Not_found ''baseq3'' ''pak2'',
              Not_found ''baseq3'' ''pak3'', Not_found ''baseq3'' ''pak4'', Not_found ''baseq3'' ''pak5'',
              Not_found ''baseq3'' ''pak6'', Not_found ''baseq3'' ''pak7'', Not_found ''baseq3'' ''pak8''],
           com_standalone = False, dialog_shown = True\<rparr>"
proof -
  note core = pak_states_empty_index [OF example_empty_index(1,2), of constants_example
      "BASEGAME constants_example" core_hashes]
  note missionpack = pak_states_empty_index [OF example_empty_index(1,2), of constants_example
      "''missionpack''" missionpack_hashes]
  have cfg: "(if name_match (replicate (length core_hashes) \<lparr>name_match = None, hash_match = None\<rparr> ! 0) \<noteq> None \<or>
                 hash_match (replicate (length core_hashes) \<lparr>name_match = None, hash_match = None\<rparr> ! 0) \<noteq> None
              then check_default_cfg_pk3 constants_example state_example
                     (Some (BASEGAME constants_example)) ''pak0'' (core_hashes ! 0)
              else Some True) = Some True"
    by (simp add: core_hashes_def)
  have installed: "list_ex (\<lambda>s. name_match s \<noteq> None \<or> hash_match s \<noteq> None)
      (replicate (length missionpack_hashes) \<lparr>name_match = None, hash_match = None\<rparr>) = False"
    by (simp add: list_ex_iff)
  note run = check_core_paks_warning_branch [OF core missionpack example_basegame(1) cfg,
      unfolded installed table_warnings_not_found]
  have names: "BASEGAME constants_example = ''baseq3''" "DEDICATED constants_example = False"
    by (simp_all add: constants_example_def)
  show ?thesis
    using run no_hash_match_empty_index [OF example_empty_index(1,2)]
    by (simp add: names)
qed

end
